theory Spec2Isabelle
  imports Complex_Main "HOL-Library.Multiset" "HOL-Library.Word"
begin

section \<open>Data model\<close>

text \<open>
  The exceptions that \<^verbatim>\<open>helpers.py\<close> can let escape, as values.  \<open>ValueError\<close> is what
  \<^verbatim>\<open>random.sample\<close>, \<^verbatim>\<open>np.frombuffer\<close> and \<^verbatim>\<open>reshape\<close> raise, \<open>IndexError\<close> is what
  indexing raises, the last two come from \<^verbatim>\<open>gzip.open(...).read()\<close>.
\<close>

datatype error = ValueError | IndexError | FileNotFoundError | BadGzipFile

text \<open>
  A two-dimensional label array: \<open>width\<close> is \<^verbatim>\<open>y.shape[1]\<close> (kept apart from the rows, an
  array with no rows still has a width), \<open>rows\<close> are its rows in order.  The entries of
  a one-hot array are the numbers 0 and 1, both exact in every numeric type involved.
\<close>

record label_array =
  width :: nat
  rows :: "int list list"

definition wf_labels :: "label_array \<Rightarrow> bool" where
  "wf_labels y = list_all (\<lambda>r. length r = width y) (rows y)"

definition one_hot_row :: "int list \<Rightarrow> bool" where
  "one_hot_row r = (list_all (\<lambda>v. v = 0 \<or> v = 1) r \<and> sum_list r = 1)"

definition one_hot :: "label_array \<Rightarrow> bool" where
  "one_hot y = (wf_labels y \<and> list_all one_hot_row (rows y))"

text \<open>The seven arrays returned by \<^verbatim>\<open>split_and_select_random_data\<close>, in the order of its
  \<^verbatim>\<open>return\<close> statement.  Image rows are kept abstract (\<open>'a\<close>): a flat row of 784 pixels
  or a \<open>28 \<times> 28 \<times> 1\<close> block alike.\<close>

record 'a split_result =
  x_target_labeled :: "'a list"
  y_target :: "int list list"
  x_test :: "'a list"
  y_test :: "int list list"
  x_target_unlabeled :: "'a list"
  x_auxiliary :: "'a list"
  y_auxiliary :: "int list list"

section \<open>The random source\<close>

text \<open>
  \<^verbatim>\<open>random.sample(range(n), k)\<close> belongs to Python's standard library.  Its contract: a
  \<open>ValueError\<close> when \<open>k\<close> is negative or larger than \<open>n\<close>, otherwise a list of \<open>k\<close>
  distinct elements of \<open>range(n)\<close>, which ones being decided by the generator's state.
  The state of the process-wide generator is a tape of naturals; a draw takes the next
  number of the tape (0 once the tape is used up) to pick a position of the pool of
  elements not selected yet, and removes the element picked.  Every outcome the contract
  allows is the outcome of some tape, so a statement about all tapes is a statement
  about all draws.
\<close>

type_synonym rng = "nat list"

fun draw_pool :: "rng \<Rightarrow> nat list \<Rightarrow> nat \<Rightarrow> nat list \<times> rng" where
  "draw_pool g pool 0 = ([], g)"
| "draw_pool g pool (Suc k) =
     (let j = (case g of [] \<Rightarrow> 0 | r # _ \<Rightarrow> r mod length pool);
          (rest, g') = draw_pool (tl g) (take j pool @ drop (Suc j) pool) k
      in (pool ! j # rest, g'))"

definition random_sample :: "rng \<Rightarrow> nat \<Rightarrow> int \<Rightarrow> (error + nat list) \<times> rng" where
  "random_sample g n k =
     (if k < 0 \<or> int n < k then (Inl ValueError, g)
      else (let (idx, g') = draw_pool g [0..<n] (nat k) in (Inr idx, g')))"

section \<open>Array operations\<close>

text \<open>Sequencing of steps that may raise: the first exception ends the call.\<close>

definition and_then :: "error + 'a \<Rightarrow> ('a \<Rightarrow> error + 'b) \<Rightarrow> error + 'b" where
  "and_then r f = (case r of Inl e \<Rightarrow> Inl e | Inr a \<Rightarrow> f a)"

text \<open>\<^verbatim>\<open>a[mask]\<close> with a boolean mask: the rows where the mask holds, in order; numpy
  raises \<open>IndexError\<close> when the mask and the array differ in length.\<close>

definition mask_select :: "'a list \<Rightarrow> bool list \<Rightarrow> error + 'a list" where
  "mask_select xs bs =
     (if length bs \<noteq> length xs then Inl IndexError
      else Inr (map fst (filter snd (zip xs bs))))"

text \<open>\<^verbatim>\<open>y[:,c]==1\<close>: the mask of the rows with a 1 in column \<open>c\<close>; a column beyond the
  width raises \<open>IndexError\<close>.\<close>

definition column_is_one :: "nat \<Rightarrow> int list list \<Rightarrow> nat \<Rightarrow> error + bool list" where
  "column_is_one w ys c =
     (if w \<le> c then Inl IndexError else Inr (map (\<lambda>r. r ! c = 1) ys))"

text \<open>\<^verbatim>\<open>(y[:,target_classes].sum(axis=1)==1)\<close>: for each row, whether its entries in the
  selected columns add up to exactly 1.  The sum is the exact one; numpy adds in the
  array's numeric type, which gives the same number as long as the sum stays in the
  range of that type, as it does for the 0/1 entries of label arrays.  What is proved
  about a row with a 1 in several selected columns is stated for rows with 0/1 entries
  in the selected columns.\<close>

definition is_target :: "nat list \<Rightarrow> int list \<Rightarrow> bool" where
  "is_target cs r = (sum_list (map (\<lambda>c. r ! c) cs) = 1)"

definition selected_sum_is_one :: "label_array \<Rightarrow> nat list \<Rightarrow> error + bool list" where
  "selected_sum_is_one y cs =
     (if \<exists>c\<in>set cs. width y \<le> c then Inl IndexError
      else Inr (map (is_target cs) (rows y)))"

section \<open>The few-shot sampler\<close>

text \<open>The inner function \<^verbatim>\<open>get_random_labeled_examples(x, y, c, num_labeled)\<close>; \<open>w\<close> is
  the width of \<open>y\<close>.  It returns the labeled rows, their labels and the unlabeled rows
  of class \<open>c\<close>, and the generator's new state.\<close>

definition get_random_labeled_examples ::
  "rng \<Rightarrow> 'a list \<Rightarrow> nat \<Rightarrow> int list list \<Rightarrow> nat \<Rightarrow> int
     \<Rightarrow> (error + 'a list \<times> int list list \<times> 'a list) \<times> rng" where
  "get_random_labeled_examples g x w y c num_labeled =
     (case and_then (column_is_one w y c) (\<lambda>m.
           and_then (mask_select x m) (\<lambda>x_c.
           and_then (mask_select y m) (\<lambda>y_c. Inr (x_c, y_c)))) of
        Inl e \<Rightarrow> (Inl e, g)
      | Inr (x_c, y_c) \<Rightarrow>
          (case random_sample g (length x_c) num_labeled of
             (Inl e, g') \<Rightarrow> (Inl e, g')
           | (Inr idx, g') \<Rightarrow>
               (Inr (map (\<lambda>i. x_c ! i) idx,
                     map (\<lambda>i. y_c ! i) idx,
                     map (\<lambda>i. x_c ! i) (filter (\<lambda>i. i \<notin> set idx) [0..<length x_c])),
                g')))"

text \<open>The \<^verbatim>\<open>for c in target_classes[1:]\<close> loop: one call per remaining class, each result
  appended to the three arrays built so far.\<close>

fun sample_remaining ::
  "rng \<Rightarrow> 'a list \<Rightarrow> nat \<Rightarrow> int list list \<Rightarrow> nat list \<Rightarrow> int
     \<Rightarrow> 'a list \<times> int list list \<times> 'a list
     \<Rightarrow> error + 'a list \<times> int list list \<times> 'a list" where
  "sample_remaining g x w y [] k acc = Inr acc"
| "sample_remaining g x w y (c # cs) k (xl, yl, xu) =
     (case get_random_labeled_examples g x w y c k of
        (Inl e, g') \<Rightarrow> Inl e
      | (Inr (x_temp, y_temp, x_unlabeled_temp), g') \<Rightarrow>
          sample_remaining g' x w y cs k (xl @ x_temp, yl @ y_temp, xu @ x_unlabeled_temp))"

text \<open>Lines 80 to 100 of \<^verbatim>\<open>split_and_select_random_data\<close>: everything after the classes
  have been drawn.  \<^verbatim>\<open>target_classes[0]\<close> raises \<open>IndexError\<close> on an empty selection.\<close>

definition split_on_classes ::
  "rng \<Rightarrow> 'a list \<Rightarrow> label_array \<Rightarrow> 'a list \<Rightarrow> label_array \<Rightarrow> nat list \<Rightarrow> int
     \<Rightarrow> error + 'a split_result" where
  "split_on_classes g x y xtest ytest target_classes num_examples_per_class =
     and_then (selected_sum_is_one y target_classes) (\<lambda>target_bools.
     and_then (mask_select (rows y) target_bools) (\<lambda>y_target_all.
     and_then (mask_select x target_bools) (\<lambda>x_target_all.
     and_then (mask_select (rows y) (map Not target_bools)) (\<lambda>y_aux.
     and_then (mask_select x (map Not target_bools)) (\<lambda>x_aux.
     and_then (selected_sum_is_one ytest target_classes) (\<lambda>test_bools.
     and_then (mask_select xtest test_bools) (\<lambda>x_tst.
     and_then (mask_select (rows ytest) test_bools) (\<lambda>y_tst.
       (case target_classes of
          [] \<Rightarrow> Inl IndexError
        | c0 # cs \<Rightarrow>
            (case get_random_labeled_examples g x_target_all (width y) y_target_all c0
                    num_examples_per_class of
               (Inl e, g') \<Rightarrow> Inl e
             | (Inr first, g') \<Rightarrow>
                 and_then (sample_remaining g' x_target_all (width y) y_target_all cs
                             num_examples_per_class first)
                   (\<lambda>(xl, yl, xu).
                      Inr \<lparr>x_target_labeled = xl, y_target = yl, x_test = x_tst,
                           y_test = y_tst, x_target_unlabeled = xu,
                           x_auxiliary = x_aux, y_auxiliary = y_aux\<rparr>)))))))))))"

definition split_and_select_random_data ::
  "rng \<Rightarrow> 'a list \<Rightarrow> label_array \<Rightarrow> 'a list \<Rightarrow> label_array \<Rightarrow> int \<Rightarrow> int
     \<Rightarrow> error + 'a split_result" where
  "split_and_select_random_data g x y xtest ytest num_target_classes num_examples_per_class =
     (let total_classes = width y in
      case random_sample g total_classes num_target_classes of
        (Inl e, g') \<Rightarrow> Inl e
      | (Inr target_classes, g') \<Rightarrow>
          split_on_classes g' x y xtest ytest target_classes num_examples_per_class)"

section \<open>The dataset loader\<close>

text \<open>
  An n-dimensional array: its shape and its entries in row-major order.  Reshaping keeps
  the entries and raises \<open>ValueError\<close> when the new shape holds another number of
  entries.
\<close>

type_synonym byte = "8 word"

record 'p ndarray =
  shape :: "nat list"
  entries :: "'p list"

definition reshape :: "'p ndarray \<Rightarrow> nat list \<Rightarrow> error + 'p ndarray" where
  "reshape a s =
     (if prod_list s \<noteq> length (entries a) then Inl ValueError else Inr (a\<lparr>shape := s\<rparr>))"

text \<open>\<^verbatim>\<open>np.frombuffer(buf, dtype=np.uint8, offset=n)\<close>: the bytes after the first \<open>n\<close>, as a
  one-dimensional array; \<open>ValueError\<close> when the offset lies beyond the buffer.\<close>

definition frombuffer :: "byte list \<Rightarrow> nat \<Rightarrow> error + byte ndarray" where
  "frombuffer buf offset =
     (if length buf < offset then Inl ValueError
      else Inr \<lparr>shape = [length buf - offset], entries = drop offset buf\<rparr>)"

text \<open>\<^verbatim>\<open>os.path.join(a, b)\<close> on a POSIX system.\<close>

definition path_join :: "string \<Rightarrow> string \<Rightarrow> string" where
  "path_join a b =
     (if b \<noteq> [] \<and> hd b = CHR ''/'' then b
      else if a = [] \<or> last a = CHR ''/'' then a @ b
      else a @ ''/'' @ b)"

text \<open>
  The images are bytes (dtype \<open>uint8\<close>) or, once normalised, 64-bit floats.  A float is
  the rational it denotes; \<open>fl\<close>, a parameter of the loader, rounds the exact quotient to
  the nearest float, so \<^verbatim>\<open>images/255\<close> is \<open>fl (v / 255)\<close> entry by entry.
\<close>

datatype images = UInt8 "byte ndarray" | Float64 "rat ndarray"

definition divide_255 :: "(rat \<Rightarrow> rat) \<Rightarrow> byte ndarray \<Rightarrow> rat ndarray" where
  "divide_255 fl a =
     \<lparr>shape = shape a, entries = map (\<lambda>v. fl (of_nat (unat v) / 255)) (entries a)\<rparr>"

definition reshape_images :: "images \<Rightarrow> nat list \<Rightarrow> error + images" where
  "reshape_images im s =
     (case im of
        UInt8 a \<Rightarrow> and_then (reshape a s) (\<lambda>b. Inr (UInt8 b))
      | Float64 a \<Rightarrow> and_then (reshape a s) (\<lambda>b. Inr (Float64 b)))"

definition images_shape :: "images \<Rightarrow> nat list" where
  "images_shape im = (case im of UInt8 a \<Rightarrow> shape a | Float64 a \<Rightarrow> shape a)"

text \<open>
  The labels are class indices (bytes) or a one-hot array.  \<^verbatim>\<open>to_categorical(labels, n)\<close>
  belongs to Keras: it fills an array of zeros with \<^verbatim>\<open>categorical[np.arange(len), labels] = 1\<close>,
  which raises \<open>IndexError\<close> for a label that is not below \<open>n\<close>.
\<close>

datatype labels = ClassIndices "byte ndarray" | OneHot label_array

definition to_categorical :: "byte ndarray \<Rightarrow> nat \<Rightarrow> error + label_array" where
  "to_categorical ls num_classes =
     (if \<exists>l\<in>set (entries ls). num_classes \<le> unat l then Inl IndexError
      else Inr \<lparr>width = num_classes,
                rows = map (\<lambda>l. (replicate num_classes 0)[unat l := 1]) (entries ls)\<rparr>)"

text \<open>
  \<^verbatim>\<open>load_mnist(path, kind, normalize, return_4d_tensor, one_hot)\<close>.  The file system and the
  gzip decoder are the parameter \<open>read_gz\<close>: \<^verbatim>\<open>gzip.open(p, 'rb').read()\<close> gives the
  decompressed bytes of the file at \<open>p\<close>, or raises (\<open>FileNotFoundError\<close> for a missing
  file, \<open>BadGzipFile\<close> for one that is not gzip).  \<^verbatim>\<open>len(labels)\<close> is the first
  dimension of the label array.
\<close>

definition load_mnist ::
  "(string \<Rightarrow> error + byte list) \<Rightarrow> (rat \<Rightarrow> rat) \<Rightarrow> string \<Rightarrow> string \<Rightarrow> bool \<Rightarrow> bool \<Rightarrow> bool
     \<Rightarrow> error + images \<times> labels" where
  "load_mnist read_gz fl path kind normalize_flag return_4d_tensor one_hot_flag =
     (let labels_path = path_join path (kind @ ''-labels-idx1-ubyte.gz'');
          images_path = path_join path (kind @ ''-images-idx3-ubyte.gz'')
      in
      and_then (read_gz labels_path) (\<lambda>lbuf.
      and_then (frombuffer lbuf 8) (\<lambda>labels.
      and_then (read_gz images_path) (\<lambda>ibuf.
      and_then (frombuffer ibuf 16) (\<lambda>flat.
      and_then (reshape flat [length (entries labels), 784]) (\<lambda>raw.
      and_then (Inr (if normalize_flag then Float64 (divide_255 fl raw) else UInt8 raw)) (\<lambda>images.
      and_then (if return_4d_tensor
                then reshape_images images [hd (images_shape images), 28, 28, 1]
                else Inr images) (\<lambda>images.
      and_then (if one_hot_flag
                then and_then (to_categorical labels 10) (\<lambda>a. Inr (OneHot a))
                else Inr (ClassIndices labels)) (\<lambda>labels.
        Inr (images, labels))))))))))"

section \<open>Vocabulary of the properties\<close>

text \<open>The rows of \<open>xs\<close> whose label, at the same position of \<open>ys\<close>, satisfies \<open>P\<close>.\<close>

definition rows_where :: "('b \<Rightarrow> bool) \<Rightarrow> 'a list \<Rightarrow> 'b list \<Rightarrow> 'a list" where
  "rows_where P xs ys = map fst (filter (\<lambda>(a, b). P b) (zip xs ys))"

text \<open>The target rows of the training set for a selection \<open>cs\<close>, and among them the rows
  of class \<open>c\<close>.\<close>

definition target_rows :: "'a list \<Rightarrow> label_array \<Rightarrow> nat list \<Rightarrow> 'a list" where
  "target_rows x y cs = rows_where (is_target cs) x (rows y)"

definition class_rows :: "'a list \<Rightarrow> label_array \<Rightarrow> nat list \<Rightarrow> nat \<Rightarrow> 'a list" where
  "class_rows x y cs c = rows_where (\<lambda>r. is_target cs r \<and> r ! c = 1) x (rows y)"

text \<open>What one class \<open>c\<close> contributes to the result, as a triple of its labeled rows,
  their labels and its unlabeled rows: \<open>k\<close> labeled rows with as many labels, each pair
  of them a row of the training set with its own label, and the labeled and unlabeled
  rows together are the rows of the class, each as often as it occurs there.\<close>

definition class_part ::
  "'a list \<Rightarrow> label_array \<Rightarrow> nat list \<Rightarrow> int \<Rightarrow> nat \<Rightarrow> 'a list \<times> int list list \<times> 'a list \<Rightarrow> bool"
  where
  "class_part x y cs k c p =
     (length (fst p) = nat k \<and> length (fst (snd p)) = nat k \<and>
      nat k \<le> length (class_rows x y cs c) \<and>
      mset (fst p) + mset (snd (snd p)) = mset (class_rows x y cs c) \<and>
      list_all2 (\<lambda>a r. (a, r) \<in> set (zip x (rows y)) \<and> r ! c = 1) (fst p) (fst (snd p)))"

section \<open>A small data set\<close>

text \<open>Six training rows and three test rows over three classes, the rows named by
  numbers, and the generator tape \<open>[2, 0, 1, 0]\<close>, which draws the classes 2 and 0.\<close>

definition ex_y :: label_array where
  "ex_y = \<lparr>width = 3, rows = [[1,0,0],[0,1,0],[0,0,1],[1,0,0],[0,1,0],[0,0,1]]\<rparr>"

definition ex_ytest :: label_array where
  "ex_ytest = \<lparr>width = 3, rows = [[0,1,0],[0,0,1],[1,0,0]]\<rparr>"

definition ex_x :: "nat list" where
  "ex_x = [10, 11, 12, 13, 14, 15]"

definition ex_xtest :: "nat list" where
  "ex_xtest = [20, 21, 22]"

definition ex_res :: "nat split_result" where
  "ex_res = \<lparr>x_target_labeled = [15, 10], y_target = [[0, 0, 1], [1, 0, 0]],
      x_test = [21, 22], y_test = [[0, 0, 1], [1, 0, 0]],
      x_target_unlabeled = [12, 13], x_auxiliary = [11, 14],
      y_auxiliary = [[0, 1, 0], [0, 1, 0]]\<rparr>"

text \<open>Four training rows, the first of them with a 1 in two columns (0 and 2).\<close>

definition ex_y_multi :: label_array where
  "ex_y_multi = \<lparr>width = 3, rows = [[1,0,1],[0,1,0],[0,0,1],[1,0,0]]\<rparr>"

definition ex_x4 :: "nat list" where
  "ex_x4 = [10, 11, 12, 13]"

definition ex_res_multi :: "nat split_result" where
  "ex_res_multi = \<lparr>x_target_labeled = [12, 13], y_target = [[0, 0, 1], [1, 0, 0]],
      x_test = [21, 22], y_test = [[0, 0, 1], [1, 0, 0]],
      x_target_unlabeled = [], x_auxiliary = [10, 11],
      y_auxiliary = [[1, 0, 1], [0, 1, 0]]\<rparr>"

text \<open>A directory \<^verbatim>\<open>data\<close> as the gzip reader sees it: a training split of one image,
  all of its pixels 255, with the label 3; a test split whose image file is one byte
  short; a split \<^verbatim>\<open>half\<close> with labels but no image file; a split \<^verbatim>\<open>bad\<close> whose label
  file is not gzip.  No other file exists.\<close>

definition ex_read_gz :: "string \<Rightarrow> error + byte list" where
  "ex_read_gz p =
     (if p = ''data/train-labels-idx1-ubyte.gz'' then Inr (replicate 8 0 @ [3])
      else if p = ''data/train-images-idx3-ubyte.gz'' then Inr (replicate 16 0 @ replicate 784 255)
      else if p = ''data/test-labels-idx1-ubyte.gz'' then Inr (replicate 8 0 @ [3])
      else if p = ''data/test-images-idx3-ubyte.gz'' then Inr (replicate 16 0 @ replicate 783 255)
      else if p = ''data/half-labels-idx1-ubyte.gz'' then Inr (replicate 8 0 @ [3])
      else if p = ''data/bad-labels-idx1-ubyte.gz'' then Inl BadGzipFile
      else Inl FileNotFoundError)"

section \<open>Facts about the operations\<close>

lemma and_then_Inr: "and_then r f = Inr v \<longleftrightarrow> (\<exists>a. r = Inr a \<and> f a = Inr v)"
  by (cases r) (simp_all add: and_then_def)

lemma mask_select_Inr:
  "mask_select xs bs = Inr v \<longleftrightarrow> length bs = length xs \<and> v = map fst (filter snd (zip xs bs))"
  by (auto simp: mask_select_def)

lemma mask_select_map:
  "length ys = length xs \<Longrightarrow> mask_select xs (map P ys) = Inr (rows_where P xs ys)"
  unfolding mask_select_def rows_where_def
proof (induction xs arbitrary: ys)
  case Nil then show ?case by simp
next
  case (Cons a xs) then show ?case by (cases ys) auto
qed

lemma draw_pool_valid:
  "k \<le> length pool \<Longrightarrow> distinct pool \<Longrightarrow> draw_pool g pool k = (idx, g') \<Longrightarrow>
   length idx = k \<and> distinct idx \<and> set idx \<subseteq> set pool"
proof (induction k arbitrary: g pool idx g')
  case 0 then show ?case by simp
next
  case (Suc k)
  define j where "j = (case g of [] \<Rightarrow> 0 | r # _ \<Rightarrow> r mod length pool)"
  define pool' where "pool' = take j pool @ drop (Suc j) pool"
  obtain rest g2 where d: "draw_pool (tl g) pool' k = (rest, g2)" by (cases "draw_pool (tl g) pool' k")
  from Suc.prems(1) have pos: "0 < length pool" by (cases pool) simp_all
  then have j: "j < length pool" by (simp add: j_def split: list.splits)
  have idx: "idx = pool ! j # rest" using Suc.prems(3) d by (simp add: j_def pool'_def Let_def)
  have pool: "pool = take j pool @ pool ! j # drop (Suc j) pool" using j by (simp add: id_take_nth_drop)
  have len: "length pool' = length pool - 1" using j by (simp add: pool'_def)
  have dist: "distinct pool'" and notin: "pool ! j \<notin> set pool'" and sub: "set pool' \<subseteq> set pool"
  proof -
    from Suc.prems(2) pool have "distinct (take j pool @ pool ! j # drop (Suc j) pool)" by simp
    then show "distinct pool'" "pool ! j \<notin> set pool'" by (auto simp: pool'_def)
    show "set pool' \<subseteq> set pool" by (auto simp: pool'_def dest: in_set_takeD in_set_dropD)
  qed
  from Suc.prems(1) len have "k \<le> length pool'" by simp
  from Suc.IH[OF this dist d] have "length rest = k" "distinct rest" "set rest \<subseteq> set pool'" by auto
  with idx notin sub j show ?case by auto
qed

lemma random_sample_Inr:
  "random_sample g n k = (Inr idx, g') \<Longrightarrow>
   0 \<le> k \<and> k \<le> int n \<and> length idx = nat k \<and> distinct idx \<and> (\<forall>i\<in>set idx. i < n)"
proof -
  assume a: "random_sample g n k = (Inr idx, g')"
  then have k: "0 \<le> k" "k \<le> int n" by (auto simp: random_sample_def split: if_splits)
  with a have "draw_pool g [0..<n] (nat k) = (idx, g')"
    by (auto simp: random_sample_def split: if_splits prod.splits)
  from draw_pool_valid[OF _ _ this, simplified] k have "length idx = nat k" "distinct idx" "set idx \<subseteq> {0..<n}"
    by auto
  with k show ?thesis by auto
qed

lemma random_sample_Inl:
  "fst (random_sample g n k) = Inl e \<longleftrightarrow> (k < 0 \<or> int n < k) \<and> e = ValueError"
  by (auto simp: random_sample_def split: prod.splits)

lemma random_sample_ok:
  "0 \<le> k \<Longrightarrow> k \<le> int n \<Longrightarrow> \<exists>idx g'. random_sample g n k = (Inr idx, g')"
  by (auto simp: random_sample_def split: prod.splits)

lemma rows_where_self: "rows_where P ys ys = filter P ys"
  unfolding rows_where_def by (induction ys) auto

lemma length_rows_where_self: "length ys = length xs \<Longrightarrow> length (rows_where P xs ys) = length (filter P ys)"
  unfolding rows_where_def
proof (induction xs arbitrary: ys)
  case Nil then show ?case by simp
next
  case (Cons a xs) then show ?case by (cases ys) auto
qed

lemma column_is_one_Inr: "column_is_one w ys c = Inr m \<longleftrightarrow> c < w \<and> m = map (\<lambda>r. r ! c = 1) ys"
  by (auto simp: column_is_one_def)

lemma selected_sum_is_one_Inr:
  "selected_sum_is_one y cs = Inr m \<longleftrightarrow> (\<forall>c\<in>set cs. c < width y) \<and> m = map (is_target cs) (rows y)"
proof (cases "\<exists>c\<in>set cs. width y \<le> c")
  case True
  then have "\<not> (\<forall>c\<in>set cs. c < width y)" using leD by blast
  with True show ?thesis by (simp add: selected_sum_is_one_def)
next
  case False
  then have "\<forall>c\<in>set cs. c < width y" using not_le by blast
  with False show ?thesis by (auto simp: selected_sum_is_one_def)
qed

lemma mask_select_map_Inr:
  "mask_select xs (map P ys) = Inr v \<longleftrightarrow> length ys = length xs \<and> v = rows_where P xs ys"
proof (cases "length ys = length xs")
  case True then show ?thesis by (auto simp: mask_select_map)
next
  case False then show ?thesis by (simp add: mask_select_def)
qed

lemma get_random_labeled_examples_Inr:
  assumes "get_random_labeled_examples g x w y c k = (Inr (xl, yl, xu), g')"
  shows "c < w \<and> length y = length x \<and> (\<exists>idx. random_sample g (length (rows_where (\<lambda>r. r ! c = 1) x y)) k = (Inr idx, g') \<and>
     xl = map (\<lambda>i. rows_where (\<lambda>r. r ! c = 1) x y ! i) idx \<and>
     yl = map (\<lambda>i. filter (\<lambda>r. r ! c = 1) y ! i) idx \<and>
     xu = map (\<lambda>i. rows_where (\<lambda>r. r ! c = 1) x y ! i)
            (filter (\<lambda>i. i \<notin> set idx) [0..<length (rows_where (\<lambda>r. r ! c = 1) x y)]))"
proof -
  let ?P = "\<lambda>r::int list. r ! c = 1"
  from assms obtain x_c y_c where
    pre: "and_then (column_is_one w y c) (\<lambda>m. and_then (mask_select x m) (\<lambda>x_c.
            and_then (mask_select y m) (\<lambda>y_c. Inr (x_c, y_c)))) = Inr (x_c, y_c)"
    by (auto simp: get_random_labeled_examples_def split: sum.splits prod.splits)
  then have cw: "c < w" and len: "length y = length x"
    and xc: "x_c = rows_where ?P x y" and yc: "y_c = filter ?P y"
    by (auto simp: and_then_Inr column_is_one_Inr mask_select_map_Inr rows_where_self)
  from assms pre obtain idx where
    rs: "random_sample g (length x_c) k = (Inr idx, g')"
    and out: "xl = map (\<lambda>i. x_c ! i) idx" "yl = map (\<lambda>i. y_c ! i) idx"
       "xu = map (\<lambda>i. x_c ! i) (filter (\<lambda>i. i \<notin> set idx) [0..<length x_c])"
    by (auto simp: get_random_labeled_examples_def split: sum.splits prod.splits)
  with cw len xc yc show ?thesis by auto
qed

lemma rows_where_map: "rows_where P xs (map f ys) = rows_where (\<lambda>b. P (f b)) xs ys"
  unfolding rows_where_def
proof (induction xs arbitrary: ys)
  case Nil then show ?case by simp
next
  case (Cons a xs) then show ?case by (cases ys) auto
qed

lemma sample_remaining_Inr:
  "sample_remaining g x w y cs k (xl, yl, xu) = Inr (xl', yl', xu') \<Longrightarrow>
   \<exists>ps. list_all2 (\<lambda>c p. \<exists>g g'. get_random_labeled_examples g x w y c k = (Inr p, g')) cs ps \<and>
        xl' = xl @ concat (map fst ps) \<and>
        yl' = yl @ concat (map (\<lambda>p. fst (snd p)) ps) \<and>
        xu' = xu @ concat (map (\<lambda>p. snd (snd p)) ps)"
proof (induction cs arbitrary: g xl yl xu)
  case Nil
  then show ?case by simp
next
  case (Cons c cs)
  from Cons.prems obtain xt yt ut g1 where
    first: "get_random_labeled_examples g x w y c k = (Inr (xt, yt, ut), g1)"
    and rest: "sample_remaining g1 x w y cs k (xl @ xt, yl @ yt, xu @ ut) = Inr (xl', yl', xu')"
    by (auto split: sum.splits prod.splits)
  from Cons.IH[OF rest] obtain ps where
    ps: "list_all2 (\<lambda>c p. \<exists>g g'. get_random_labeled_examples g x w y c k = (Inr p, g')) cs ps"
      "xl' = (xl @ xt) @ concat (map fst ps)"
      "yl' = (yl @ yt) @ concat (map (\<lambda>p. fst (snd p)) ps)"
      "xu' = (xu @ ut) @ concat (map (\<lambda>p. snd (snd p)) ps)"
    by blast
  show ?case
  proof (intro exI[of _ "(xt, yt, ut) # ps"] conjI)
    show "list_all2 (\<lambda>c p. \<exists>g g'. get_random_labeled_examples g x w y c k = (Inr p, g'))
            (c # cs) ((xt, yt, ut) # ps)"
      using first ps(1) by auto
  qed (use ps in simp_all)
qed

lemma split_on_classes_Inr:
  assumes "split_on_classes g x y xtest ytest cs k = Inr res"
  shows "length (rows y) = length x \<and> length (rows ytest) = length xtest \<and>
     (\<forall>c\<in>set cs. c < width y \<and> c < width ytest) \<and> cs \<noteq> [] \<and>
     x_auxiliary res = rows_where (\<lambda>r. \<not> is_target cs r) x (rows y) \<and>
     y_auxiliary res = filter (\<lambda>r. \<not> is_target cs r) (rows y) \<and>
     x_test res = rows_where (is_target cs) xtest (rows ytest) \<and>
     y_test res = filter (is_target cs) (rows ytest) \<and>
     (\<exists>ps. list_all2 (\<lambda>c p. \<exists>g g'. get_random_labeled_examples g (target_rows x y cs) (width y)
                   (filter (is_target cs) (rows y)) c k = (Inr p, g')) cs ps \<and>
        x_target_labeled res = concat (map fst ps) \<and>
        y_target res = concat (map (\<lambda>p. fst (snd p)) ps) \<and>
        x_target_unlabeled res = concat (map (\<lambda>p. snd (snd p)) ps))"
proof -
  let ?xt = "rows_where (is_target cs) x (rows y)" and ?yt = "filter (is_target cs) (rows y)"
  from assms[unfolded split_on_classes_def and_then_Inr]
  obtain tb yta xta ya xa teb xts yts where
    steps: "selected_sum_is_one y cs = Inr tb" "mask_select (rows y) tb = Inr yta"
      "mask_select x tb = Inr xta" "mask_select (rows y) (map Not tb) = Inr ya"
      "mask_select x (map Not tb) = Inr xa" "selected_sum_is_one ytest cs = Inr teb"
      "mask_select xtest teb = Inr xts" "mask_select (rows ytest) teb = Inr yts"
    and rest: "(case cs of [] \<Rightarrow> Inl IndexError
        | c0 # cs' \<Rightarrow>
            (case get_random_labeled_examples g xta (width y) yta c0 k of
               (Inl e, g') \<Rightarrow> Inl e
             | (Inr first, g') \<Rightarrow>
                 and_then (sample_remaining g' xta (width y) yta cs' k first)
                   (\<lambda>(xl, yl, xu).
                      Inr \<lparr>x_target_labeled = xl, y_target = yl, x_test = xts,
                           y_test = yts, x_target_unlabeled = xu,
                           x_auxiliary = xa, y_auxiliary = ya\<rparr>))) = Inr res"
    by auto
  from steps have shape: "length (rows y) = length x" "length (rows ytest) = length xtest"
      "\<forall>c\<in>set cs. c < width y" "\<forall>c\<in>set cs. c < width ytest"
    and vals: "xta = ?xt" "yta = ?yt" "xa = rows_where (\<lambda>r. \<not> is_target cs r) x (rows y)"
      "ya = filter (\<lambda>r. \<not> is_target cs r) (rows y)"
      "xts = rows_where (is_target cs) xtest (rows ytest)"
      "yts = filter (is_target cs) (rows ytest)"
    by (auto simp: selected_sum_is_one_Inr mask_select_map_Inr rows_where_self rows_where_map o_def)
  note rest = rest[unfolded vals]
  from rest obtain c0 cs' where cs: "cs = c0 # cs'" by (cases cs) auto
  from rest cs obtain xt yt ut g1 where
    first: "get_random_labeled_examples g ?xt (width y) ?yt c0 k = (Inr (xt, yt, ut), g1)"
    by (auto split: sum.splits prod.splits)
  from rest cs first obtain xl yl xu where
    loop: "sample_remaining g1 ?xt (width y) ?yt cs' k (xt, yt, ut) = Inr (xl, yl, xu)"
    and res: "res = \<lparr>x_target_labeled = xl, y_target = yl,
                           x_test = rows_where (is_target cs) xtest (rows ytest),
                           y_test = filter (is_target cs) (rows ytest), x_target_unlabeled = xu,
                           x_auxiliary = rows_where (\<lambda>r. \<not> is_target cs r) x (rows y),
                           y_auxiliary = filter (\<lambda>r. \<not> is_target cs r) (rows y)\<rparr>"
    by (auto simp: and_then_Inr)
  from sample_remaining_Inr[OF loop] obtain ps where
    ps: "list_all2 (\<lambda>c p. \<exists>g g'. get_random_labeled_examples g ?xt (width y) ?yt c k = (Inr p, g')) cs' ps"
      "xl = xt @ concat (map fst ps)"
      "yl = yt @ concat (map (\<lambda>p. fst (snd p)) ps)"
      "xu = ut @ concat (map (\<lambda>p. snd (snd p)) ps)"
    by blast
  have "list_all2 (\<lambda>c p. \<exists>g g'. get_random_labeled_examples g ?xt (width y) ?yt c k = (Inr p, g'))
          cs ((xt, yt, ut) # ps)"
    using first ps(1) cs by auto
  moreover have "x_target_labeled res = concat (map fst ((xt, yt, ut) # ps))"
    "y_target res = concat (map (\<lambda>p. fst (snd p)) ((xt, yt, ut) # ps))"
    "x_target_unlabeled res = concat (map (\<lambda>p. snd (snd p)) ((xt, yt, ut) # ps))"
    using res ps by simp_all
  ultimately have "\<exists>ps. list_all2 (\<lambda>c p. \<exists>g g'. get_random_labeled_examples g ?xt (width y) ?yt c k = (Inr p, g')) cs ps \<and>
        x_target_labeled res = concat (map fst ps) \<and>
        y_target res = concat (map (\<lambda>p. fst (snd p)) ps) \<and>
        x_target_unlabeled res = concat (map (\<lambda>p. snd (snd p)) ps)"
    by blast
  with shape cs res show ?thesis unfolding target_rows_def by simp
qed

lemma split_and_select_random_data_Inr:
  "split_and_select_random_data g x y xtest ytest n k = Inr res \<longleftrightarrow>
   (\<exists>cs g'. random_sample g (width y) n = (Inr cs, g') \<and>
      split_on_classes g' x y xtest ytest cs k = Inr res)"
  by (auto simp: split_and_select_random_data_def split: prod.splits sum.splits)

lemma zip_rows_where:
  "length ys = length xs \<Longrightarrow>
   zip (rows_where P xs ys) (filter P ys) = filter (\<lambda>(a, b). P b) (zip xs ys)"
  unfolding rows_where_def
proof (induction xs arbitrary: ys)
  case Nil then show ?case by simp
next
  case (Cons a xs) then show ?case by (cases ys) auto
qed

lemma rows_where_nested:
  "length ys = length xs \<Longrightarrow>
   rows_where Q (rows_where P xs ys) (filter P ys) = rows_where (\<lambda>b. P b \<and> Q b) xs ys"
  unfolding rows_where_def
proof (induction xs arbitrary: ys)
  case Nil then show ?case by simp
next
  case (Cons a xs) then show ?case by (cases ys) auto
qed

lemma mset_rows_where_partition:
  "mset (rows_where P xs ys) + mset (rows_where (\<lambda>b. \<not> P b) xs ys) = mset (take (length ys) xs)"
  unfolding rows_where_def
proof (induction xs arbitrary: ys)
  case Nil then show ?case by simp
next
  case (Cons a xs) then show ?case by (cases ys) auto
qed

lemma distinct_rows_where: "distinct xs \<Longrightarrow> distinct (rows_where P xs ys)"
  unfolding rows_where_def
  by (rule distinct_map_filter) (simp add: map_fst_zip_take)

lemma mset_filter_split: "mset (filter P xs) + mset (filter (\<lambda>x. \<not> P x) xs) = mset xs"
  by (induction xs) auto

lemma mset_pick_rest:
  assumes "distinct idx" "\<forall>i\<in>set idx. i < length xs"
  shows "mset (map (\<lambda>i. xs ! i) idx) + mset (map (\<lambda>i. xs ! i) (filter (\<lambda>i. i \<notin> set idx) [0..<length xs])) = mset xs"
proof -
  let ?all = "[0..<length xs]"
  have "set idx = set (filter (\<lambda>i. i \<in> set idx) ?all)" using assms(2) by auto
  moreover have "distinct (filter (\<lambda>i. i \<in> set idx) ?all)" by simp
  ultimately have "mset idx = mset (filter (\<lambda>i. i \<in> set idx) ?all)"
    using assms(1) set_eq_iff_mset_eq_distinct by blast
  then have "mset idx + mset (filter (\<lambda>i. i \<notin> set idx) ?all) = mset ?all"
    by (simp only: mset_filter_split)
  then have "image_mset (\<lambda>i. xs ! i) (mset idx + mset (filter (\<lambda>i. i \<notin> set idx) ?all))
      = image_mset (\<lambda>i. xs ! i) (mset ?all)" by simp
  moreover have "image_mset (\<lambda>i. xs ! i) (mset ?all) = mset xs"
    by (simp only: mset_map[symmetric] map_nth)
  ultimately show ?thesis by simp
qed

lemma part_facts:
  assumes "get_random_labeled_examples g x w y c k = (Inr (xl, yl, xu), g')"
  shows "0 \<le> k" and "length xl = nat k" and "length yl = nat k"
    and "nat k \<le> length (rows_where (\<lambda>r. r ! c = 1) x y)"
    and "mset xl + mset xu = mset (rows_where (\<lambda>r. r ! c = 1) x y)"
    and "list_all2 (\<lambda>a r. (a, r) \<in> set (zip x y) \<and> r ! c = 1) xl yl"
    and "c < w" and "length y = length x"
proof -
  let ?P = "\<lambda>r::int list. r ! c = 1"
  let ?xc = "rows_where ?P x y" and ?yc = "filter ?P y"
  from get_random_labeled_examples_Inr[OF assms] obtain idx where
    cw: "c < w" and len: "length y = length x"
    and rs: "random_sample g (length ?xc) k = (Inr idx, g')"
    and xl: "xl = map (\<lambda>i. ?xc ! i) idx" and yl: "yl = map (\<lambda>i. ?yc ! i) idx"
    and xu: "xu = map (\<lambda>i. ?xc ! i) (filter (\<lambda>i. i \<notin> set idx) [0..<length ?xc])"
    by blast
  from random_sample_Inr[OF rs] have
    k: "0 \<le> k" "k \<le> int (length ?xc)" and li: "length idx = nat k"
    and di: "distinct idx" and ri: "\<forall>i\<in>set idx. i < length ?xc"
    by auto
  show "0 \<le> k" by (rule k(1))
  show "length xl = nat k" using xl li by simp
  show "length yl = nat k" using yl li by simp
  show "nat k \<le> length ?xc" using k by linarith
  show "mset xl + mset xu = mset ?xc" unfolding xl xu by (rule mset_pick_rest[OF di ri])
  show "c < w" by (rule cw)
  show "length y = length x" by (rule len)
  have lc: "length ?yc = length ?xc" using len by (simp add: length_rows_where_self)
  have z: "zip ?xc ?yc = filter (\<lambda>(a, b). ?P b) (zip x y)" using len by (rule zip_rows_where)
  show "list_all2 (\<lambda>a r. (a, r) \<in> set (zip x y) \<and> r ! c = 1) xl yl"
    unfolding list_all2_conv_all_nth
  proof (intro conjI allI impI)
    show "length xl = length yl" using xl yl by simp
  next
    fix j assume "j < length xl"
    then have j: "j < length idx" using xl by simp
    then have i: "idx ! j < length ?xc" using ri by simp
    then have iz: "idx ! j < length (zip ?xc ?yc)" using lc by simp
    have "zip ?xc ?yc ! (idx ! j) = (?xc ! (idx ! j), ?yc ! (idx ! j))"
      using i lc by (simp only: nth_zip)
    with nth_mem[OF iz] have "(?xc ! (idx ! j), ?yc ! (idx ! j)) \<in> set (zip ?xc ?yc)"
      by (simp only:)
    then have "(?xc ! (idx ! j), ?yc ! (idx ! j)) \<in> set (filter (\<lambda>(a, b). ?P b) (zip x y))"
      by (simp only: z)
    then have "(?xc ! (idx ! j), ?yc ! (idx ! j)) \<in> set (zip x y) \<and> ?P (?yc ! (idx ! j))"
      by simp
    then show "(xl ! j, yl ! j) \<in> set (zip x y)" "yl ! j ! c = 1"
      using xl yl j by simp_all
  qed
qed

lemma split_parts:
  assumes "split_and_select_random_data g x y xtest ytest n k = Inr res"
  shows "\<exists>cs g' ps. random_sample g (width y) n = (Inr cs, g') \<and>
     split_on_classes g' x y xtest ytest cs k = Inr res \<and>
     length cs = nat n \<and> 0 \<le> n \<and> 0 \<le> k \<and> distinct cs \<and> cs \<noteq> [] \<and>
     length (rows y) = length x \<and>
     length ps = length cs \<and>
     x_target_labeled res = concat (map fst ps) \<and>
     y_target res = concat (map (\<lambda>p. fst (snd p)) ps) \<and>
     x_target_unlabeled res = concat (map (\<lambda>p. snd (snd p)) ps) \<and>
     (\<forall>i<length cs. class_part x y cs k (cs ! i) (ps ! i))"
proof -
  from assms obtain cs g' where
    rs: "random_sample g (width y) n = (Inr cs, g')"
    and body: "split_on_classes g' x y xtest ytest cs k = Inr res"
    unfolding split_and_select_random_data_Inr by blast
  from random_sample_Inr[OF rs] have cs: "0 \<le> n" "length cs = nat n" "distinct cs" by auto
  let ?xt = "target_rows x y cs" and ?yt = "filter (is_target cs) (rows y)"
  from split_on_classes_Inr[OF body] obtain ps where
    len: "length (rows y) = length x" and ne: "cs \<noteq> []"
    and ps: "list_all2 (\<lambda>c p. \<exists>g g'. get_random_labeled_examples g ?xt (width y) ?yt c k = (Inr p, g')) cs ps"
    and out: "x_target_labeled res = concat (map fst ps)"
      "y_target res = concat (map (\<lambda>p. fst (snd p)) ps)"
      "x_target_unlabeled res = concat (map (\<lambda>p. snd (snd p)) ps)"
    by blast
  have lps: "length ps = length cs" using ps by (simp add: list_all2_lengthD)
  have z: "zip ?xt ?yt = filter (\<lambda>(a, b). is_target cs b) (zip x (rows y))"
    unfolding target_rows_def using len by (rule zip_rows_where)
  have part: "class_part x y cs k (cs ! i) (ps ! i) \<and> 0 \<le> k" if i: "i < length cs" for i
  proof -
    obtain xl yl xu where p: "ps ! i = (xl, yl, xu)" by (cases "ps ! i")
    from ps i obtain g1 g2 where
      run: "get_random_labeled_examples g1 ?xt (width y) ?yt (cs ! i) k = (Inr (xl, yl, xu), g2)"
      unfolding list_all2_conv_all_nth p[symmetric] by blast
    have cr: "rows_where (\<lambda>r. r ! (cs ! i) = 1) ?xt ?yt = class_rows x y cs (cs ! i)"
      unfolding target_rows_def class_rows_def using len by (rule rows_where_nested)
    note f = part_facts[OF run, unfolded cr]
    have "list_all2 (\<lambda>a r. (a, r) \<in> set (zip x (rows y)) \<and> r ! (cs ! i) = 1) xl yl"
      using f(6) unfolding z by (rule list_all2_mono) auto
    with f show ?thesis unfolding p class_part_def by simp
  qed
  from ne have "0 < length cs" by simp
  from part[OF this] have k: "0 \<le> k" by simp
  show ?thesis
    using rs body cs k ne len lps out part by blast
qed

lemma length_concat_uniform:
  "\<forall>b\<in>set bs. length b = m \<Longrightarrow> length (concat bs) = length bs * m"
  by (induction bs) auto


section \<open>The claims about the sampler\<close>

lemma labeled_blocks:
  assumes "split_and_select_random_data g x y xtest ytest n k = Inr res"
  shows "\<exists>cs g' blocks. random_sample g (width y) n = (Inr cs, g') \<and>
     length cs = nat n \<and> length blocks = nat n \<and>
     x_target_labeled res = concat blocks \<and>
     (\<forall>i<nat n. length (blocks ! i) = nat k \<and>
                set (blocks ! i) \<subseteq> set (class_rows x y cs (cs ! i))) \<and>
     int (length (x_target_labeled res)) = n * k"
proof -
  from split_parts[OF assms] obtain cs g' ps where
    rs: "random_sample g (width y) n = (Inr cs, g')"
    and cs: "length cs = nat n" "0 \<le> n" "0 \<le> k" and lps: "length ps = length cs"
    and out: "x_target_labeled res = concat (map fst ps)"
    and part: "\<forall>i<length cs. class_part x y cs k (cs ! i) (ps ! i)"
    by blast
  let ?bs = "map fst ps"
  have blk: "length (?bs ! i) = nat k \<and> set (?bs ! i) \<subseteq> set (class_rows x y cs (cs ! i))"
    if "i < nat n" for i
  proof -
    from that cs lps have i: "i < length cs" "i < length ps" by simp_all
    with part have l: "length (fst (ps ! i)) = nat k"
      and m: "mset (fst (ps ! i)) + mset (snd (snd (ps ! i))) = mset (class_rows x y cs (cs ! i))"
      by (simp_all add: class_part_def)
    from m have "set (fst (ps ! i)) \<subseteq> set (class_rows x y cs (cs ! i))"
      by (metis mset_subset_eq_add_left set_mset_mono set_mset_mset)
    with l i show ?thesis by simp
  qed
  have "\<forall>b\<in>set ?bs. length b = nat k"
  proof
    fix b assume "b \<in> set ?bs"
    then obtain i where "i < length ?bs" "b = ?bs ! i" by (metis in_set_conv_nth)
    with blk[of i] cs lps show "length b = nat k" by simp
  qed
  then have "length (concat ?bs) = length ?bs * nat k" by (rule length_concat_uniform)
  then have "int (length (x_target_labeled res)) = n * k"
    using out cs lps by (simp add: nat_mult_distrib[symmetric])
  with rs cs lps out blk show ?thesis
    by (intro exI[of _ cs] exI[of _ g'] exI[of _ ?bs]) simp
qed

text \<open>
  C2.  Whenever the call returns, the labeled and the unlabeled output are concatenations
  of one part per selected class, and for every selected class the labeled part and the
  unlabeled part together hold each target row of the class exactly as often as the
  training set does: when the training rows are pairwise different the two parts are
  disjoint, and their union is the set of the target rows of the class.
\<close>

theorem labeled_unlabeled_partition:
  assumes "split_and_select_random_data g x y xtest ytest n k = Inr res"
  shows "\<exists>cs g' ls us. random_sample g (width y) n = (Inr cs, g') \<and>
     length ls = length cs \<and> length us = length cs \<and>
     x_target_labeled res = concat ls \<and> x_target_unlabeled res = concat us \<and>
     (\<forall>i<length cs.
        mset (ls ! i) + mset (us ! i) = mset (class_rows x y cs (cs ! i)) \<and>
        (distinct x \<longrightarrow>
           set (ls ! i) \<inter> set (us ! i) = {} \<and>
           set (ls ! i) \<union> set (us ! i) = set (class_rows x y cs (cs ! i))))"
proof -
  from split_parts[OF assms] obtain cs g' ps where
    rs: "random_sample g (width y) n = (Inr cs, g')"
    and lps: "length ps = length cs"
    and out: "x_target_labeled res = concat (map fst ps)"
      "x_target_unlabeled res = concat (map (\<lambda>p. snd (snd p)) ps)"
    and part: "\<forall>i<length cs. class_part x y cs k (cs ! i) (ps ! i)"
    by blast
  let ?ls = "map fst ps" and ?us = "map (\<lambda>p. snd (snd p)) ps"
  have cls: "mset (?ls ! i) + mset (?us ! i) = mset (class_rows x y cs (cs ! i)) \<and>
        (distinct x \<longrightarrow>
           set (?ls ! i) \<inter> set (?us ! i) = {} \<and>
           set (?ls ! i) \<union> set (?us ! i) = set (class_rows x y cs (cs ! i)))"
    if i: "i < length cs" for i
  proof -
    let ?l = "fst (ps ! i)" and ?u = "snd (snd (ps ! i))" and ?c = "class_rows x y cs (cs ! i)"
    from i part have m: "mset ?l + mset ?u = mset ?c" by (simp add: class_part_def)
    then have m': "mset (?l @ ?u) = mset ?c" by simp
    have u: "set ?l \<union> set ?u = set ?c" using m' by (metis mset_eq_setD set_append)
    have "set ?l \<inter> set ?u = {}" if "distinct x"
    proof -
      from that have "distinct ?c" unfolding class_rows_def by (rule distinct_rows_where)
      with m' have "distinct (?l @ ?u)" by (metis mset_eq_imp_distinct_iff)
      then show ?thesis by simp
    qed
    with m u i lps show ?thesis by simp
  qed
  show ?thesis
    using rs lps out cls
    by (intro exI[of _ cs] exI[of _ g'] exI[of _ ?ls] exI[of _ ?us]) simp
qed

theorem labeled_unlabeled_partition_witness:
  "split_and_select_random_data [2, 0, 1, 0] ex_x ex_y ex_xtest ex_ytest 2 1 = Inr ex_res \<and>
   (\<exists>cs g' ls us. random_sample [2, 0, 1, 0] (width ex_y) 2 = (Inr cs, g') \<and>
     length ls = length cs \<and> length us = length cs \<and>
     x_target_labeled ex_res = concat ls \<and> x_target_unlabeled ex_res = concat us \<and>
     (\<forall>i<length cs.
        mset (ls ! i) + mset (us ! i) = mset (class_rows ex_x ex_y cs (cs ! i)) \<and>
        (distinct ex_x \<longrightarrow>
           set (ls ! i) \<inter> set (us ! i) = {} \<and>
           set (ls ! i) \<union> set (us ! i) = set (class_rows ex_x ex_y cs (cs ! i)))))"
proof -
  have run: "split_and_select_random_data [2, 0, 1, 0] ex_x ex_y ex_xtest ex_ytest 2 1 = Inr ex_res"
    by code_simp
  from labeled_unlabeled_partition[OF run] run show ?thesis by simp
qed

subsection \<open>One-hot rows and the sum test\<close>

lemma two_ones_sum:
  fixes f :: "nat \<Rightarrow> int"
  assumes "distinct cs" "c1 \<in> set cs" "c2 \<in> set cs" "c1 \<noteq> c2" "f c1 = 1" "f c2 = 1"
    and "\<forall>c\<in>set cs. 0 \<le> f c"
  shows "2 \<le> sum_list (map f cs)"
proof -
  have "sum_list (map f cs) = sum f (set cs)"
    using assms(1) by (rule sum_list_distinct_conv_sum_set)
  moreover have "sum f {c1, c2} \<le> sum f (set cs)"
    using assms(2,3,7) by (intro sum_mono2) auto
  moreover have "sum f {c1, c2} = 2" using assms(4,5,6) by simp
  ultimately show ?thesis by simp
qed

lemma selected_sum_le:
  fixes r :: "int list"
  assumes "distinct cs" "\<forall>c\<in>set cs. c < length r" "\<forall>v\<in>set r. 0 \<le> v"
  shows "sum_list (map (\<lambda>c. r ! c) cs) \<le> sum_list r"
proof -
  have "sum_list (map (\<lambda>c. r ! c) cs) = sum (\<lambda>c. r ! c) (set cs)"
    using assms(1) by (rule sum_list_distinct_conv_sum_set)
  also have "\<dots> \<le> sum (\<lambda>c. r ! c) {0..<length r}"
    using assms(2,3) by (intro sum_mono2) auto
  also have "\<dots> = sum_list r" by (simp add: sum_list_sum_nth)
  finally show ?thesis .
qed

lemma one_hot_row_entries:
  "one_hot_row r \<Longrightarrow> v \<in> set r \<Longrightarrow> v = 0 \<or> v = 1"
  by (auto simp: one_hot_row_def list_all_iff)

lemma one_hot_row_nonneg: "one_hot_row r \<Longrightarrow> v \<in> set r \<Longrightarrow> 0 \<le> v"
  using one_hot_row_entries[of r v] by auto

lemma one_hot_row_sum: "one_hot_row r \<Longrightarrow> sum_list r = 1"
  by (simp add: one_hot_row_def)

lemma one_hot_row_unique:
  assumes "one_hot_row r" "c1 < length r" "c2 < length r" "r ! c1 = 1" "r ! c2 = 1"
  shows "c1 = c2"
proof (rule ccontr)
  assume ne: "c1 \<noteq> c2"
  have nn: "\<forall>c\<in>set [0..<length r]. 0 \<le> r ! c"
    using one_hot_row_nonneg[OF assms(1)] by simp
  have "2 \<le> sum_list (map (\<lambda>c. r ! c) [0..<length r])"
    using assms(2,3,4,5) ne nn by (intro two_ones_sum[where ?c1.0 = c1 and ?c2.0 = c2]) simp_all
  then have "2 \<le> sum_list r" by (simp only: map_nth)
  with one_hot_row_sum[OF assms(1)] show False by simp
qed

lemma is_target_one_hot:
  assumes "one_hot_row r" "distinct cs" "\<forall>c\<in>set cs. c < length r"
  shows "is_target cs r \<longleftrightarrow> (\<exists>c\<in>set cs. r ! c = 1)"
proof
  assume t: "is_target cs r"
  show "\<exists>c\<in>set cs. r ! c = 1"
  proof (rule ccontr)
    assume "\<not> (\<exists>c\<in>set cs. r ! c = 1)"
    then have "\<forall>c\<in>set cs. r ! c = 0"
      using one_hot_row_entries[OF assms(1)] assms(3) by (metis nth_mem)
    then have "map (\<lambda>c. r ! c) cs = map (\<lambda>c. 0) cs" by simp
    then have "sum_list (map (\<lambda>c. r ! c) cs) = 0" by (simp only: sum_list_0)
    with t show False by (simp add: is_target_def)
  qed
next
  assume "\<exists>c\<in>set cs. r ! c = 1"
  then obtain c where c: "c \<in> set cs" "r ! c = 1" by blast
  have nn: "\<forall>v\<in>set r. 0 \<le> v" using one_hot_row_nonneg[OF assms(1)] by blast
  have nn': "\<forall>c\<in>set cs. 0 \<le> r ! c" using nn assms(3) by (simp add: nth_mem)
  have "sum_list (map (\<lambda>c. r ! c) cs) \<le> 1"
    using selected_sum_le[OF assms(2,3) nn] one_hot_row_sum[OF assms(1)] by simp
  moreover have "r ! c \<le> sum_list (map (\<lambda>c. r ! c) cs)"
    using c(1) nn' by (intro member_le_sum_list) auto
  ultimately show "is_target cs r" using c(2) by (simp add: is_target_def)
qed

subsection \<open>Alignment of the labeled output\<close>

lemma list_all2_concat:
  "list_all2 (list_all2 R) as bs \<Longrightarrow> list_all2 R (concat as) (concat bs)"
  by (induction rule: list_all2_induct) (auto intro: list_all2_appendI)

lemma one_hot_rowD:
  "one_hot y \<Longrightarrow> r \<in> set (rows y) \<Longrightarrow> one_hot_row r \<and> length r = width y"
  by (auto simp: one_hot_def wf_labels_def list_all_iff)

text \<open>
  C10.  Whenever the call returns, the labeled images and the labeled labels have the
  same length and are aligned: at every position the image and the label are a row of
  the training set and the label of that same row, and the label has a 1 in a selected
  class column.  On one-hot training labels every labeled label is a one-hot row, and
  the column of its single 1 is a selected class.
\<close>

theorem labeled_rows_aligned:
  assumes "split_and_select_random_data g x y xtest ytest n k = Inr res"
  shows "\<exists>cs g'. random_sample g (width y) n = (Inr cs, g') \<and>
     length (y_target res) = length (x_target_labeled res) \<and>
     (\<forall>i<length (x_target_labeled res).
        (\<exists>j<length x. x_target_labeled res ! i = x ! j \<and> y_target res ! i = rows y ! j) \<and>
        (\<exists>c\<in>set cs. y_target res ! i ! c = 1) \<and>
        (one_hot y \<longrightarrow> one_hot_row (y_target res ! i) \<and>
           (\<forall>c<width y. y_target res ! i ! c = 1 \<longrightarrow> c \<in> set cs)))"
proof -
  from split_parts[OF assms] obtain cs g' ps where
    rs: "random_sample g (width y) n = (Inr cs, g')"
    and len: "length (rows y) = length x"
    and lps: "length ps = length cs"
    and out: "x_target_labeled res = concat (map fst ps)"
      "y_target res = concat (map (\<lambda>p. fst (snd p)) ps)"
    and part: "\<forall>i<length cs. class_part x y cs k (cs ! i) (ps ! i)"
    by blast
  from random_sample_Inr[OF rs] have csw: "\<forall>c\<in>set cs. c < width y" by simp
  let ?R = "\<lambda>a r. (a, r) \<in> set (zip x (rows y)) \<and> (\<exists>c\<in>set cs. r ! c = 1)"
  have "list_all2 (list_all2 ?R) (map fst ps) (map (\<lambda>p. fst (snd p)) ps)"
  proof (rule list_all2_all_nthI)
    show "length (map fst ps) = length (map (\<lambda>p. fst (snd p)) ps)" by simp
  next
    fix i assume "i < length (map fst ps)"
    then have i: "i < length cs" "i < length ps" using lps by simp_all
    with part have p: "list_all2 (\<lambda>a r. (a, r) \<in> set (zip x (rows y)) \<and> r ! (cs ! i) = 1)
        (fst (ps ! i)) (fst (snd (ps ! i)))"
      by (simp add: class_part_def)
    have ci: "cs ! i \<in> set cs" using i(1) by simp
    from p have "list_all2 ?R (fst (ps ! i)) (fst (snd (ps ! i)))"
      by (rule list_all2_mono) (use ci in blast)
    then show "list_all2 ?R (map fst ps ! i) (map (\<lambda>p. fst (snd p)) ps ! i)"
      using i(2) by simp
  qed
  then have all: "list_all2 ?R (x_target_labeled res) (y_target res)"
    unfolding out by (rule list_all2_concat)
  then have l: "length (y_target res) = length (x_target_labeled res)"
    by (simp add: list_all2_lengthD)
  have row: "(\<exists>j<length x. x_target_labeled res ! i = x ! j \<and> y_target res ! i = rows y ! j) \<and>
        (\<exists>c\<in>set cs. y_target res ! i ! c = 1) \<and>
        (one_hot y \<longrightarrow> one_hot_row (y_target res ! i) \<and>
           (\<forall>c<width y. y_target res ! i ! c = 1 \<longrightarrow> c \<in> set cs))"
    if i: "i < length (x_target_labeled res)" for i
  proof -
    let ?a = "x_target_labeled res ! i" and ?r = "y_target res ! i"
    from all i have mem: "(?a, ?r) \<in> set (zip x (rows y))" and sel: "\<exists>c\<in>set cs. ?r ! c = 1"
      by (simp_all add: list_all2_conv_all_nth)
    from mem obtain j where j: "j < length x" "x ! j = ?a" "rows y ! j = ?r"
      unfolding in_set_zip by auto
    have "one_hot_row ?r \<and> (\<forall>c<width y. ?r ! c = 1 \<longrightarrow> c \<in> set cs)" if oh: "one_hot y"
    proof -
      from mem have "?r \<in> set (rows y)" by (rule set_zip_rightD)
      from one_hot_rowD[OF oh this] have r: "one_hot_row ?r" "length ?r = width y" by simp_all
      from sel obtain c' where c': "c' \<in> set cs" "?r ! c' = 1" by blast
      with csw r(2) have "c' < length ?r" by simp
      then have "\<forall>c<width y. ?r ! c = 1 \<longrightarrow> c \<in> set cs"
        using one_hot_row_unique[OF r(1)] c' r(2) by metis
      with r(1) show ?thesis by simp
    qed
    with j sel show ?thesis by auto
  qed
  from rs l row show ?thesis by blast
qed

theorem labeled_rows_aligned_witness:
  "split_and_select_random_data [2, 0, 1, 0] ex_x ex_y ex_xtest ex_ytest 2 1 = Inr ex_res \<and>
   (\<exists>cs g'. random_sample [2, 0, 1, 0] (width ex_y) 2 = (Inr cs, g') \<and>
     length (y_target ex_res) = length (x_target_labeled ex_res) \<and>
     (\<forall>i<length (x_target_labeled ex_res).
        (\<exists>j<length ex_x. x_target_labeled ex_res ! i = ex_x ! j \<and>
                           y_target ex_res ! i = rows ex_y ! j) \<and>
        (\<exists>c\<in>set cs. y_target ex_res ! i ! c = 1) \<and>
        (one_hot ex_y \<longrightarrow> one_hot_row (y_target ex_res ! i) \<and>
           (\<forall>c<width ex_y. y_target ex_res ! i ! c = 1 \<longrightarrow> c \<in> set cs)))) \<and>
   one_hot ex_y"
proof -
  have run: "split_and_select_random_data [2, 0, 1, 0] ex_x ex_y ex_xtest ex_ytest 2 1 = Inr ex_res"
    by code_simp
  have oh: "one_hot ex_y" by code_simp
  from labeled_rows_aligned[OF run] run oh show ?thesis by simp
qed

subsection \<open>The test subset and the auxiliary rows\<close>

lemma rows_where_cong:
  "(\<And>b. b \<in> set ys \<Longrightarrow> P b = Q b) \<Longrightarrow> rows_where P xs ys = rows_where Q xs ys"
  unfolding rows_where_def
  by (rule arg_cong[where f = "map fst"], rule filter_cong) (auto dest: set_zip_rightD)

lemma set_rows_where_mono:
  "(\<And>b. P b \<Longrightarrow> Q b) \<Longrightarrow> set (rows_where P xs ys) \<subseteq> set (rows_where Q xs ys)"
  unfolding rows_where_def by auto

lemma rows_where_distinct_nth:
  assumes "distinct xs" "length ys = length xs" "i < length xs"
    and "xs ! i \<in> set (rows_where P xs ys)"
  shows "P (ys ! i)"
proof -
  from assms(4) obtain b where b: "(xs ! i, b) \<in> set (zip xs ys)" "P b"
    unfolding rows_where_def by auto
  from b(1) obtain j where j: "j < length xs" "xs ! j = xs ! i" "ys ! j = b"
    unfolding in_set_zip by auto
  from j(1,2) assms(1,3) have "j = i" by (simp add: nth_eq_iff_index_eq)
  with j(3) b(2) show ?thesis by simp
qed

lemma outputs_subset_target:
  assumes "split_and_select_random_data g x y xtest ytest n k = Inr res"
    and "random_sample g (width y) n = (Inr cs, g')"
  shows "set (x_target_labeled res) \<union> set (x_target_unlabeled res) \<subseteq> set (target_rows x y cs)"
proof -
  from split_parts[OF assms(1)] assms(2) obtain ps where
    lps: "length ps = length cs"
    and out: "x_target_labeled res = concat (map fst ps)"
      "x_target_unlabeled res = concat (map (\<lambda>p. snd (snd p)) ps)"
    and part: "\<forall>i<length cs. class_part x y cs k (cs ! i) (ps ! i)"
    by auto
  have "set (fst p) \<union> set (snd (snd p)) \<subseteq> set (target_rows x y cs)" if "p \<in> set ps" for p
  proof -
    from that obtain i where i: "i < length ps" "p = ps ! i" by (metis in_set_conv_nth)
    with part lps have "mset (fst p) + mset (snd (snd p)) = mset (class_rows x y cs (cs ! i))"
      by (simp add: class_part_def)
    then have "mset (fst p @ snd (snd p)) = mset (class_rows x y cs (cs ! i))" by simp
    then have "set (fst p) \<union> set (snd (snd p)) = set (class_rows x y cs (cs ! i))"
      by (metis mset_eq_setD set_append)
    moreover have "set (class_rows x y cs (cs ! i)) \<subseteq> set (target_rows x y cs)"
      unfolding class_rows_def target_rows_def by (rule set_rows_where_mono) simp
    ultimately show ?thesis by simp
  qed
  then have "\<forall>p\<in>set ps. set (fst p) \<subseteq> set (target_rows x y cs)"
    "\<forall>p\<in>set ps. set (snd (snd p)) \<subseteq> set (target_rows x y cs)"
    by simp_all
  then show ?thesis unfolding out by (simp add: UN_subset_iff subset_iff) blast
qed

text \<open>
  C4.  Whenever the call returns and the test labels are one-hot, the test subset holds
  exactly the test rows whose label has its 1 in a selected class column, in their
  order, images and labels alike; so its row count is the number of such test rows.
\<close>

theorem test_subset_exact:
  assumes "split_and_select_random_data g x y xtest ytest n k = Inr res"
    and "one_hot ytest"
  shows "\<exists>cs g'. random_sample g (width y) n = (Inr cs, g') \<and>
     x_test res = rows_where (\<lambda>r. \<exists>c\<in>set cs. r ! c = 1) xtest (rows ytest) \<and>
     y_test res = filter (\<lambda>r. \<exists>c\<in>set cs. r ! c = 1) (rows ytest) \<and>
     length (x_test res) = length (filter (\<lambda>r. \<exists>c\<in>set cs. r ! c = 1) (rows ytest)) \<and>
     length (y_test res) = length (filter (\<lambda>r. \<exists>c\<in>set cs. r ! c = 1) (rows ytest))"
proof -
  from split_parts[OF assms(1)] obtain cs g' where
    rs: "random_sample g (width y) n = (Inr cs, g')"
    and body: "split_on_classes g' x y xtest ytest cs k = Inr res"
    and dist: "distinct cs"
    by blast
  from split_on_classes_Inr[OF body] have
    len: "length (rows ytest) = length xtest"
    and csw: "\<forall>c\<in>set cs. c < width ytest"
    and xt: "x_test res = rows_where (is_target cs) xtest (rows ytest)"
    and yt: "y_test res = filter (is_target cs) (rows ytest)"
    by simp_all
  have eq: "is_target cs r = (\<exists>c\<in>set cs. r ! c = 1)" if "r \<in> set (rows ytest)" for r
  proof -
    from one_hot_rowD[OF assms(2) that] have r: "one_hot_row r" "length r = width ytest"
      by simp_all
    from csw r(2) have "\<forall>c\<in>set cs. c < length r" by simp
    with r(1) dist show ?thesis by (rule is_target_one_hot)
  qed
  have x': "x_test res = rows_where (\<lambda>r. \<exists>c\<in>set cs. r ! c = 1) xtest (rows ytest)"
    unfolding xt by (rule rows_where_cong) (rule eq)
  have y': "y_test res = filter (\<lambda>r. \<exists>c\<in>set cs. r ! c = 1) (rows ytest)"
    unfolding yt by (rule filter_cong) (simp_all add: eq)
  have "length (x_test res) = length (filter (\<lambda>r. \<exists>c\<in>set cs. r ! c = 1) (rows ytest))"
    unfolding x' using len by (rule length_rows_where_self)
  with rs x' y' show ?thesis by auto
qed

theorem test_subset_exact_witness:
  "split_and_select_random_data [2, 0, 1, 0] ex_x ex_y ex_xtest ex_ytest 2 1 = Inr ex_res \<and>
   one_hot ex_ytest \<and>
   (\<exists>cs g'. random_sample [2, 0, 1, 0] (width ex_y) 2 = (Inr cs, g') \<and>
     x_test ex_res = rows_where (\<lambda>r. \<exists>c\<in>set cs. r ! c = 1) ex_xtest (rows ex_ytest) \<and>
     y_test ex_res = filter (\<lambda>r. \<exists>c\<in>set cs. r ! c = 1) (rows ex_ytest) \<and>
     length (x_test ex_res) = length (filter (\<lambda>r. \<exists>c\<in>set cs. r ! c = 1) (rows ex_ytest)) \<and>
     length (y_test ex_res) = length (filter (\<lambda>r. \<exists>c\<in>set cs. r ! c = 1) (rows ex_ytest)))"
proof -
  have run: "split_and_select_random_data [2, 0, 1, 0] ex_x ex_y ex_xtest ex_ytest 2 1 = Inr ex_res"
    by code_simp
  have oh: "one_hot ex_ytest" by code_simp
  from test_subset_exact[OF run oh] run oh show ?thesis by simp
qed

text \<open>
  C7.  A training row of a 0/1 label array (every entry in a selected column is 0 or 1)
  with a 1 in two different selected class columns has a selected-column sum above 1,
  so it fails the \<open>== 1\<close> test: it is not a target row, it appears with its label in
  the auxiliary output, and (the training rows being pairwise different) it is neither in
  the labeled nor in the unlabeled output.  On 0/1 entries the sum is the number of
  selected columns with a 1, at most the label width, so it is the same number in
  every numeric type numpy may add it up in.
\<close>

theorem multi_class_row_is_auxiliary:
  assumes "split_and_select_random_data g x y xtest ytest n k = Inr res"
    and "random_sample g (width y) n = (Inr cs, g')"
    and "i < length x"
    and "c1 \<in> set cs" and "c2 \<in> set cs" and "c1 \<noteq> c2"
    and "rows y ! i ! c1 = 1" and "rows y ! i ! c2 = 1"
    and "\<forall>c\<in>set cs. rows y ! i ! c = 0 \<or> rows y ! i ! c = 1"
  shows "1 < sum_list (map (\<lambda>c. rows y ! i ! c) cs) \<and>
     sum_list (map (\<lambda>c. rows y ! i ! c) cs) \<le> int (width y) \<and>
     \<not> is_target cs (rows y ! i) \<and>
     (x ! i, rows y ! i) \<in> set (zip (x_auxiliary res) (y_auxiliary res)) \<and>
     (distinct x \<longrightarrow> x ! i \<notin> set (x_target_labeled res) \<union> set (x_target_unlabeled res))"
proof -
  let ?r = "rows y ! i"
  from split_parts[OF assms(1)] assms(2) have
    body: "split_on_classes g' x y xtest ytest cs k = Inr res" and dist: "distinct cs"
    by auto
  from split_on_classes_Inr[OF body] have
    len: "length (rows y) = length x"
    and xa: "x_auxiliary res = rows_where (\<lambda>r. \<not> is_target cs r) x (rows y)"
    and ya: "y_auxiliary res = filter (\<lambda>r. \<not> is_target cs r) (rows y)"
    by simp_all
  from random_sample_Inr[OF assms(2)] have lcs: "int (length cs) \<le> int (width y)" by simp
  from assms(9) have nn: "\<forall>c\<in>set cs. 0 \<le> ?r ! c" by auto
  have two: "2 \<le> sum_list (map (\<lambda>c. ?r ! c) cs)"
    using dist assms(4-8) nn by (rule two_ones_sum)
  have "sum_list (map (\<lambda>c. ?r ! c) cs) \<le> sum_list (map (\<lambda>c. 1) cs)"
    using assms(9) by (intro sum_list_mono) auto
  also have "\<dots> = int (length cs)" by (simp add: sum_list_triv)
  finally have bound: "sum_list (map (\<lambda>c. ?r ! c) cs) \<le> int (width y)"
    using lcs by simp
  from two have nt: "\<not> is_target cs ?r" by (simp add: is_target_def)
  have "(x ! i, ?r) \<in> set (zip x (rows y))"
    using assms(3) len by (auto simp: in_set_zip)
  with nt have "(x ! i, ?r) \<in> set (filter (\<lambda>(a, b). \<not> is_target cs b) (zip x (rows y)))"
    by simp
  then have aux: "(x ! i, ?r) \<in> set (zip (x_auxiliary res) (y_auxiliary res))"
    unfolding xa ya by (simp only: zip_rows_where[OF len])
  have "x ! i \<notin> set (x_target_labeled res) \<union> set (x_target_unlabeled res)" if dx: "distinct x"
  proof
    assume "x ! i \<in> set (x_target_labeled res) \<union> set (x_target_unlabeled res)"
    with outputs_subset_target[OF assms(1,2)] have "x ! i \<in> set (target_rows x y cs)" by blast
    then have "is_target cs ?r"
      unfolding target_rows_def by (rule rows_where_distinct_nth[OF dx len assms(3)])
    with nt show False by simp
  qed
  with two bound nt aux show ?thesis by simp
qed

theorem multi_class_row_is_auxiliary_witness:
  "split_and_select_random_data [2, 0, 1, 0] ex_x4 ex_y_multi ex_xtest ex_ytest 2 1 = Inr ex_res_multi \<and>
   random_sample [2, 0, 1, 0] (width ex_y_multi) 2 = (Inr [2, 0], [1, 0]) \<and>
   rows ex_y_multi ! 0 ! 2 = 1 \<and> rows ex_y_multi ! 0 ! 0 = 1 \<and>
   1 < sum_list (map (\<lambda>c. rows ex_y_multi ! 0 ! c) [2, 0]) \<and>
   sum_list (map (\<lambda>c. rows ex_y_multi ! 0 ! c) [2, 0]) \<le> int (width ex_y_multi) \<and>
   \<not> is_target [2, 0] (rows ex_y_multi ! 0) \<and>
   (ex_x4 ! 0, rows ex_y_multi ! 0) \<in> set (zip (x_auxiliary ex_res_multi) (y_auxiliary ex_res_multi)) \<and>
   distinct ex_x4 \<and>
   ex_x4 ! 0 \<notin> set (x_target_labeled ex_res_multi) \<union> set (x_target_unlabeled ex_res_multi)"
proof -
  have run: "split_and_select_random_data [2, 0, 1, 0] ex_x4 ex_y_multi ex_xtest ex_ytest 2 1
      = Inr ex_res_multi"
    by code_simp
  have rs: "random_sample [2, 0, 1, 0] (width ex_y_multi) 2 = (Inr [2, 0], [1, 0])"
    by code_simp
  have i: "0 < length ex_x4" by (simp add: ex_x4_def)
  have m: "(2::nat) \<in> set [2, 0]" "(0::nat) \<in> set [2, 0]" "(2::nat) \<noteq> 0" by simp_all
  have o: "rows ex_y_multi ! 0 ! 2 = 1" "rows ex_y_multi ! 0 ! 0 = 1"
    by (simp_all add: ex_y_multi_def)
  have nn: "\<forall>c\<in>set [2, 0]. rows ex_y_multi ! 0 ! c = 0 \<or> rows ex_y_multi ! 0 ! c = 1"
    by (simp add: ex_y_multi_def)
  have d: "distinct ex_x4" by (simp add: ex_x4_def)
  from multi_class_row_is_auxiliary[OF run rs i m o nn] run rs o d show ?thesis by simp
qed

subsection \<open>The classes cover the target rows\<close>

lemma sum_list_no_hit:
  "\<forall>c\<in>set cs. \<not> P c \<Longrightarrow> sum_list (map (\<lambda>c. if P c then {#z#} else {#}) cs) = {#}"
  by (induction cs) simp_all

lemma sum_list_single_hit:
  assumes "distinct cs" "c \<in> set cs" "P c" "\<And>c'. c' \<in> set cs \<Longrightarrow> P c' \<Longrightarrow> c' = c"
  shows "sum_list (map (\<lambda>c. if P c then {#z#} else {#}) cs) = {#z#}"
  using assms(1,2,4)
proof (induction cs)
  case Nil then show ?case by simp
next
  case (Cons a cs)
  show ?case
  proof (cases "a = c")
    case True
    have "\<not> P c'" if "c' \<in> set cs" for c'
    proof
      assume "P c'"
      with that Cons.prems(3)[of c'] have "c' = c" by simp
      with that True Cons.prems(1) show False by simp
    qed
    then have "sum_list (map (\<lambda>c. if P c then {#z#} else {#}) cs) = {#}"
      by (intro sum_list_no_hit) blast
    with True assms(3) show ?thesis by simp
  next
    case False
    have na: "\<not> P a"
    proof
      assume "P a"
      with Cons.prems(3)[of a] have "a = c" by simp
      with False show False by simp
    qed
    from False Cons.prems(2) have c: "c \<in> set cs" by simp
    from Cons.prems(1) have d: "distinct cs" by simp
    have "sum_list (map (\<lambda>c. if P c then {#z#} else {#}) cs) = {#z#}"
      using d c Cons.prems(3) by (intro Cons.IH) simp_all
    with na show ?thesis by simp
  qed
qed

lemma mset_class_split:
  assumes "distinct cs"
    and "\<And>z. z \<in> set zs \<Longrightarrow> T z \<Longrightarrow> \<exists>c\<in>set cs. Q c z \<and> (\<forall>c'\<in>set cs. Q c' z \<longrightarrow> c' = c)"
  shows "sum_list (map (\<lambda>c. mset (filter (\<lambda>z. T z \<and> Q c z) zs)) cs) = mset (filter T zs)"
  using assms(2)
proof (induction zs)
  case Nil
  then show ?case by (simp add: sum_list_0)
next
  case (Cons z zs)
  have IH: "sum_list (map (\<lambda>c. mset (filter (\<lambda>z. T z \<and> Q c z) zs)) cs) = mset (filter T zs)"
    using Cons by simp
  have split: "sum_list (map (\<lambda>c. mset (filter (\<lambda>z. T z \<and> Q c z) (z # zs))) cs)
      = sum_list (map (\<lambda>c. if T z \<and> Q c z then {#z#} else {#}) cs)
        + sum_list (map (\<lambda>c. mset (filter (\<lambda>z. T z \<and> Q c z) zs)) cs)"
    by (induction cs) simp_all
  show ?case
  proof (cases "T z")
    case True
    from Cons.prems[of z] True obtain c where
      c: "c \<in> set cs" "Q c z" "\<forall>c'\<in>set cs. Q c' z \<longrightarrow> c' = c" by auto
    have "sum_list (map (\<lambda>c. if T z \<and> Q c z then {#z#} else {#}) cs) = {#z#}"
    proof (rule sum_list_single_hit[where c = c])
      show "distinct cs" by (rule assms(1))
      show "c \<in> set cs" by (rule c(1))
      show "T z \<and> Q c z" using True c(2) by simp
      show "c' = c" if "c' \<in> set cs" "T z \<and> Q c' z" for c'
        using that c(3) by blast
    qed
    with split IH True show ?thesis by simp
  next
    case False
    then have "sum_list (map (\<lambda>c. if T z \<and> Q c z then {#z#} else {#}) cs) = {#}"
      by (intro sum_list_no_hit) simp
    with split IH False show ?thesis by simp
  qed
qed

lemma class_rows_cover:
  assumes "one_hot y" "distinct cs" "\<forall>c\<in>set cs. c < width y"
  shows "sum_list (map (\<lambda>c. mset (class_rows x y cs c)) cs) = mset (target_rows x y cs)"
proof -
  let ?zs = "zip x (rows y)"
  have one: "\<exists>c\<in>set cs. snd z ! c = 1 \<and> (\<forall>c'\<in>set cs. snd z ! c' = 1 \<longrightarrow> c' = c)"
    if z: "z \<in> set ?zs" and t: "is_target cs (snd z)" for z
  proof -
    from z have "snd z \<in> set (rows y)" by (metis prod.collapse set_zip_rightD)
    from one_hot_rowD[OF assms(1) this] have r: "one_hot_row (snd z)" "length (snd z) = width y"
      by simp_all
    with assms(3) have lt: "\<forall>c\<in>set cs. c < length (snd z)" by simp
    from t is_target_one_hot[OF r(1) assms(2) lt] obtain c where c: "c \<in> set cs" "snd z ! c = 1"
      by blast
    have "\<forall>c'\<in>set cs. snd z ! c' = 1 \<longrightarrow> c' = c"
      using one_hot_row_unique[OF r(1)] lt c by blast
    with c show ?thesis by blast
  qed
  have "sum_list (map (\<lambda>c. mset (filter (\<lambda>z. is_target cs (snd z) \<and> snd z ! c = 1) ?zs)) cs)
      = mset (filter (\<lambda>z. is_target cs (snd z)) ?zs)"
    using assms(2) one by (rule mset_class_split)
  then have "image_mset fst (sum_list (map (\<lambda>c. mset (filter (\<lambda>z. is_target cs (snd z) \<and> snd z ! c = 1) ?zs)) cs))
      = image_mset fst (mset (filter (\<lambda>z. is_target cs (snd z)) ?zs))"
    by simp
  moreover have "image_mset fst (sum_list (map f cs)) = sum_list (map (\<lambda>c. image_mset fst (f c)) cs)"
    for f :: "nat \<Rightarrow> ('a \<times> int list) multiset"
    by (induction cs) simp_all
  ultimately have "sum_list (map (\<lambda>c. image_mset fst (mset (filter (\<lambda>z. is_target cs (snd z) \<and> snd z ! c = 1) ?zs))) cs)
      = image_mset fst (mset (filter (\<lambda>z. is_target cs (snd z)) ?zs))"
    by (simp only:)
  moreover have "mset (class_rows x y cs c) = image_mset fst (mset (filter (\<lambda>z. is_target cs (snd z) \<and> snd z ! c = 1) ?zs))"
    for c
    by (simp only: class_rows_def rows_where_def case_prod_unfold mset_map)
  moreover have "mset (target_rows x y cs) = image_mset fst (mset (filter (\<lambda>z. is_target cs (snd z)) ?zs))"
    by (simp only: target_rows_def rows_where_def case_prod_unfold mset_map)
  ultimately show ?thesis by (simp only:)
qed


lemma mset_concat_parts:
  assumes "length ps = length cs"
    and "\<forall>i<length cs. mset (fst (ps ! i)) + mset (snd (snd (ps ! i))) = f (cs ! i)"
  shows "mset (concat (map fst ps)) + mset (concat (map (\<lambda>p. snd (snd p)) ps))
     = sum_list (map f cs)"
  using assms
proof (induction ps arbitrary: cs)
  case Nil then show ?case by simp
next
  case (Cons p ps)
  then obtain c cs' where cs: "cs = c # cs'" by (cases cs) auto
  from Cons.prems cs have l: "length ps = length cs'" by simp
  from Cons.prems(2) cs have h: "mset (fst p) + mset (snd (snd p)) = f c" by auto
  have "\<forall>i<length cs'. mset (fst (ps ! i)) + mset (snd (snd (ps ! i))) = f (cs' ! i)"
  proof (intro allI impI)
    fix i assume "i < length cs'"
    then have "Suc i < length cs" using cs by simp
    with Cons.prems(2) have "mset (fst ((p # ps) ! Suc i)) + mset (snd (snd ((p # ps) ! Suc i))) = f (cs ! Suc i)"
      by blast
    then show "mset (fst (ps ! i)) + mset (snd (snd (ps ! i))) = f (cs' ! i)"
      using cs by simp
  qed
  from Cons.IH[OF l this] h cs show ?case by (simp add: ac_simps)
qed

text \<open>
  C3.  Whenever the call returns, the auxiliary output is exactly the training rows that
  are not target rows (images and labels alike), so the target rows and the auxiliary
  rows together are the training set, every row once: the two row counts add up to the
  training row count.  On one-hot training labels the target rows are in turn exactly
  the labeled and the unlabeled output together.
\<close>

theorem target_auxiliary_partition:
  assumes "split_and_select_random_data g x y xtest ytest n k = Inr res"
  shows "\<exists>cs g'. random_sample g (width y) n = (Inr cs, g') \<and>
     x_auxiliary res = rows_where (\<lambda>r. \<not> is_target cs r) x (rows y) \<and>
     y_auxiliary res = filter (\<lambda>r. \<not> is_target cs r) (rows y) \<and>
     length (x_auxiliary res) + length (target_rows x y cs) = length x \<and>
     mset (target_rows x y cs) + mset (x_auxiliary res) = mset x \<and>
     mset (filter (is_target cs) (rows y)) + mset (y_auxiliary res) = mset (rows y) \<and>
     (one_hot y \<longrightarrow>
        mset (x_target_labeled res) + mset (x_target_unlabeled res) = mset (target_rows x y cs))"
proof -
  from split_parts[OF assms] obtain cs g' ps where
    rs: "random_sample g (width y) n = (Inr cs, g')"
    and body: "split_on_classes g' x y xtest ytest cs k = Inr res"
    and dist: "distinct cs"
    and lps: "length ps = length cs"
    and out: "x_target_labeled res = concat (map fst ps)"
      "x_target_unlabeled res = concat (map (\<lambda>p. snd (snd p)) ps)"
    and part: "\<forall>i<length cs. class_part x y cs k (cs ! i) (ps ! i)"
    by blast
  from random_sample_Inr[OF rs] have csw: "\<forall>c\<in>set cs. c < width y" by simp
  from split_on_classes_Inr[OF body] have
    len: "length (rows y) = length x"
    and xa: "x_auxiliary res = rows_where (\<lambda>r. \<not> is_target cs r) x (rows y)"
    and ya: "y_auxiliary res = filter (\<lambda>r. \<not> is_target cs r) (rows y)"
    by simp_all
  have m: "mset (target_rows x y cs) + mset (x_auxiliary res) = mset x"
    unfolding target_rows_def xa using mset_rows_where_partition[of "is_target cs" x "rows y"] len
    by simp
  then have "size (mset (target_rows x y cs) + mset (x_auxiliary res)) = size (mset x)"
    by (rule arg_cong)
  then have c: "length (x_auxiliary res) + length (target_rows x y cs) = length x" by simp
  have my: "mset (filter (is_target cs) (rows y)) + mset (y_auxiliary res) = mset (rows y)"
    unfolding ya by (rule mset_filter_split)
  have "mset (x_target_labeled res) + mset (x_target_unlabeled res) = mset (target_rows x y cs)"
    if oh: "one_hot y"
  proof -
    have "\<forall>i<length cs. mset (fst (ps ! i)) + mset (snd (snd (ps ! i)))
        = mset (class_rows x y cs (cs ! i))"
      using part by (simp add: class_part_def)
    with lps have "mset (concat (map fst ps)) + mset (concat (map (\<lambda>p. snd (snd p)) ps))
        = sum_list (map (\<lambda>c. mset (class_rows x y cs c)) cs)"
      by (rule mset_concat_parts)
    also have "\<dots> = mset (target_rows x y cs)"
      using oh dist csw by (rule class_rows_cover)
    finally show ?thesis unfolding out .
  qed
  with rs xa ya c m my show ?thesis by blast
qed

theorem target_auxiliary_partition_witness:
  "split_and_select_random_data [2, 0, 1, 0] ex_x ex_y ex_xtest ex_ytest 2 1 = Inr ex_res \<and>
   one_hot ex_y \<and>
   (\<exists>cs g'. random_sample [2, 0, 1, 0] (width ex_y) 2 = (Inr cs, g') \<and>
     x_auxiliary ex_res = rows_where (\<lambda>r. \<not> is_target cs r) ex_x (rows ex_y) \<and>
     y_auxiliary ex_res = filter (\<lambda>r. \<not> is_target cs r) (rows ex_y) \<and>
     length (x_auxiliary ex_res) + length (target_rows ex_x ex_y cs) = length ex_x \<and>
     mset (target_rows ex_x ex_y cs) + mset (x_auxiliary ex_res) = mset ex_x \<and>
     mset (filter (is_target cs) (rows ex_y)) + mset (y_auxiliary ex_res) = mset (rows ex_y) \<and>
     (one_hot ex_y \<longrightarrow>
        mset (x_target_labeled ex_res) + mset (x_target_unlabeled ex_res)
          = mset (target_rows ex_x ex_y cs)))"
proof -
  have run: "split_and_select_random_data [2, 0, 1, 0] ex_x ex_y ex_xtest ex_ytest 2 1 = Inr ex_res"
    by code_simp
  have oh: "one_hot ex_y" by code_simp
  from target_auxiliary_partition[OF run] run oh show ?thesis by simp
qed

subsection \<open>Failures of the sampler\<close>

lemma and_then_Inr_eq: "and_then (Inr a) f = f a"
  by (simp add: and_then_def)

lemma get_random_labeled_examples_error:
  assumes "c < w" "length y = length x"
    and "fst (get_random_labeled_examples g x w y c k) = Inl e"
  shows "e = ValueError"
proof -
  let ?P = "\<lambda>r::int list. r ! c = 1"
  have pre: "and_then (column_is_one w y c) (\<lambda>m. and_then (mask_select x m) (\<lambda>x_c.
            and_then (mask_select y m) (\<lambda>y_c. Inr (x_c, y_c))))
      = Inr (rows_where ?P x y, rows_where ?P y y)"
    using assms(1,2) by (simp add: column_is_one_def and_then_def mask_select_map)
  have "get_random_labeled_examples g x w y c k =
      (case random_sample g (length (rows_where ?P x y)) k of
         (Inl e, g') \<Rightarrow> (Inl e, g')
       | (Inr idx, g') \<Rightarrow>
           (Inr (map (\<lambda>i. rows_where ?P x y ! i) idx,
                 map (\<lambda>i. rows_where ?P y y ! i) idx,
                 map (\<lambda>i. rows_where ?P x y ! i)
                   (filter (\<lambda>i. i \<notin> set idx) [0..<length (rows_where ?P x y)])), g'))"
    unfolding get_random_labeled_examples_def pre by simp
  with assms(3) have "fst (random_sample g (length (rows_where ?P x y)) k) = Inl e"
    by (auto split: prod.splits sum.splits)
  then show ?thesis by (simp add: random_sample_Inl)
qed

lemma sample_remaining_error:
  assumes "\<forall>c\<in>set cs. c < w" "length y = length x"
    and "sample_remaining g x w y cs k acc = Inl e"
  shows "e = ValueError"
  using assms(1,3)
proof (induction cs arbitrary: g acc)
  case Nil
  then show ?case by simp
next
  case (Cons c cs)
  obtain xl yl xu where acc: "acc = (xl, yl, xu)" by (cases acc)
  obtain r g1 where run: "get_random_labeled_examples g x w y c k = (r, g1)"
    by (cases "get_random_labeled_examples g x w y c k")
  from Cons.prems(1) have cw: "c < w" and rest: "\<forall>c\<in>set cs. c < w" by simp_all
  show ?case
  proof (cases r)
    case (Inl e')
    with run have "fst (get_random_labeled_examples g x w y c k) = Inl e'" by simp
    from get_random_labeled_examples_error[OF cw assms(2) this] have "e' = ValueError" .
    moreover from Cons.prems(2) acc run Inl have "e = e'" by simp
    ultimately show ?thesis by simp
  next
    case (Inr p)
    obtain xt yt ut where p: "p = (xt, yt, ut)" by (cases p)
    from Cons.prems(2) acc run Inr p have
      "sample_remaining g1 x w y cs k (xl @ xt, yl @ yt, xu @ ut) = Inl e" by simp
    from Cons.IH[OF rest this] show ?thesis .
  qed
qed

lemma split_on_classes_error:
  assumes "length (rows y) = length x" "length (rows ytest) = length xtest"
    and "\<forall>c\<in>set cs. c < width y" "\<forall>c\<in>set cs. c < width ytest" "cs \<noteq> []"
    and "split_on_classes g x y xtest ytest cs k = Inl e"
  shows "e = ValueError"
proof -
  let ?xt = "rows_where (is_target cs) x (rows y)" and ?yt = "filter (is_target cs) (rows y)"
  let ?xa = "rows_where (\<lambda>r. \<not> is_target cs r) x (rows y)"
  let ?ya = "filter (\<lambda>r. \<not> is_target cs r) (rows y)"
  let ?xs = "rows_where (is_target cs) xtest (rows ytest)"
  let ?ys = "filter (is_target cs) (rows ytest)"
  from assms(5) obtain c0 cs' where cs: "cs = c0 # cs'" by (cases cs) auto
  have s1: "selected_sum_is_one y cs = Inr (map (is_target cs) (rows y))"
    using assms(3) by (simp add: selected_sum_is_one_Inr)
  have s2: "selected_sum_is_one ytest cs = Inr (map (is_target cs) (rows ytest))"
    using assms(4) by (simp add: selected_sum_is_one_Inr)
  have m: "mask_select (rows y) (map (is_target cs) (rows y)) = Inr ?yt"
    "mask_select x (map (is_target cs) (rows y)) = Inr ?xt"
    "mask_select (rows y) (map Not (map (is_target cs) (rows y))) = Inr ?ya"
    "mask_select x (map Not (map (is_target cs) (rows y))) = Inr ?xa"
    "mask_select xtest (map (is_target cs) (rows ytest)) = Inr ?xs"
    "mask_select (rows ytest) (map (is_target cs) (rows ytest)) = Inr ?ys"
    using assms(1,2) by (simp_all add: mask_select_map rows_where_self rows_where_map o_def)
  have lt: "length ?yt = length ?xt" using assms(1) by (simp add: length_rows_where_self)
  obtain r g1 where run: "get_random_labeled_examples g ?xt (width y) ?yt c0 k = (r, g1)"
    by (cases "get_random_labeled_examples g ?xt (width y) ?yt c0 k")
  have lc: "(case cs of [] \<Rightarrow> a | c # cs'' \<Rightarrow> f c cs'') = f c0 cs'" for a :: 'z and f
    by (simp add: cs)
  have body: "split_on_classes g x y xtest ytest cs k =
      (case r of Inl e \<Rightarrow> Inl e
       | Inr first \<Rightarrow>
           and_then (sample_remaining g1 ?xt (width y) ?yt cs' k first)
             (\<lambda>(xl, yl, xu).
                Inr \<lparr>x_target_labeled = xl, y_target = yl, x_test = ?xs,
                     y_test = ?ys, x_target_unlabeled = xu,
                     x_auxiliary = ?xa, y_auxiliary = ?ya\<rparr>))"
    unfolding split_on_classes_def s1 s2 m and_then_Inr_eq lc run
    by (cases r) simp_all
  from assms(3) cs have c0: "c0 < width y" and rest: "\<forall>c\<in>set cs'. c < width y" by simp_all
  show ?thesis
  proof (cases r)
    case (Inl e')
    with run have "fst (get_random_labeled_examples g ?xt (width y) ?yt c0 k) = Inl e'" by simp
    from get_random_labeled_examples_error[OF c0 lt this] have "e' = ValueError" .
    moreover from assms(6) body Inl have "e = e'" by simp
    ultimately show ?thesis by simp
  next
    case (Inr first)
    with assms(6) body have "sample_remaining g1 ?xt (width y) ?yt cs' k first = Inl e"
      by (auto simp: and_then_def split: sum.splits)
    from sample_remaining_error[OF rest lt this] show ?thesis .
  qed
qed


text \<open>
  C5.  A request for more classes than the label width fails with \<open>ValueError\<close> (what
  \<^verbatim>\<open>random.sample\<close> raises).  A request for more examples per class than some drawn class
  has target rows never returns a result; on arrays of consistent shape (as many labels
  as rows in both splits, test labels at least as wide as the training labels) the
  exception is again \<open>ValueError\<close>.
\<close>

theorem sampling_errors:
  "(int (width y) < n \<longrightarrow>
      split_and_select_random_data g x y xtest ytest n k = Inl ValueError) \<and>
   (\<forall>cs g' c. random_sample g (width y) n = (Inr cs, g') \<and> c \<in> set cs \<and>
        int (length (class_rows x y cs c)) < k \<longrightarrow>
      (\<exists>e. split_and_select_random_data g x y xtest ytest n k = Inl e) \<and>
      (length (rows y) = length x \<and> length (rows ytest) = length xtest \<and>
       width y \<le> width ytest \<longrightarrow>
         split_and_select_random_data g x y xtest ytest n k = Inl ValueError))"
proof (intro conjI impI allI)
  assume "int (width y) < n"
  then show "split_and_select_random_data g x y xtest ytest n k = Inl ValueError"
    by (simp add: split_and_select_random_data_def random_sample_def)
next
  fix cs g' c
  assume a: "random_sample g (width y) n = (Inr cs, g') \<and> c \<in> set cs \<and>
        int (length (class_rows x y cs c)) < k"
  then have rs: "random_sample g (width y) n = (Inr cs, g')" and c: "c \<in> set cs"
    and short: "int (length (class_rows x y cs c)) < k" by simp_all
  have top: "split_and_select_random_data g x y xtest ytest n k
      = split_on_classes g' x y xtest ytest cs k"
    by (simp add: split_and_select_random_data_def rs)
  have no: "split_and_select_random_data g x y xtest ytest n k \<noteq> Inr res" for res
  proof
    assume ok: "split_and_select_random_data g x y xtest ytest n k = Inr res"
    from split_parts[OF ok] rs obtain ps where
      part: "\<forall>i<length cs. class_part x y cs k (cs ! i) (ps ! i)" by auto
    from c obtain i where i: "i < length cs" "cs ! i = c" by (metis in_set_conv_nth)
    with part have "nat k \<le> length (class_rows x y cs c)" by (auto simp: class_part_def)
    with short show False by linarith
  qed
  then show fail: "\<exists>e. split_and_select_random_data g x y xtest ytest n k = Inl e"
    by (cases "split_and_select_random_data g x y xtest ytest n k") auto
  assume shape: "length (rows y) = length x \<and> length (rows ytest) = length xtest \<and>
       width y \<le> width ytest"
  from fail top obtain e where e: "split_on_classes g' x y xtest ytest cs k = Inl e" by auto
  from random_sample_Inr[OF rs] have w: "\<forall>c\<in>set cs. c < width y" by simp
  with shape have wt: "\<forall>c\<in>set cs. c < width ytest" by auto
  from c have ne: "cs \<noteq> []" by auto
  from shape have l: "length (rows y) = length x" "length (rows ytest) = length xtest"
    by simp_all
  from split_on_classes_error[OF l w wt ne e] e top
  show "split_and_select_random_data g x y xtest ytest n k = Inl ValueError" by simp
qed

theorem sampling_errors_witness:
  "int (width ex_y) < 4 \<and>
   split_and_select_random_data [2, 0, 1, 0] ex_x ex_y ex_xtest ex_ytest 4 1 = Inl ValueError \<and>
   random_sample [2, 0, 1, 0] (width ex_y) 2 = (Inr [2, 0], [1, 0]) \<and>
   int (length (class_rows ex_x ex_y [2, 0] 2)) < 3 \<and>
   length (rows ex_y) = length ex_x \<and> length (rows ex_ytest) = length ex_xtest \<and>
   width ex_y \<le> width ex_ytest \<and>
   split_and_select_random_data [2, 0, 1, 0] ex_x ex_y ex_xtest ex_ytest 2 3 = Inl ValueError"
proof -
  have w: "int (width ex_y) < 4" by (simp add: ex_y_def)
  have rs: "random_sample [2, 0, 1, 0] (width ex_y) 2 = (Inr [2, 0], [1, 0])" by code_simp
  have short: "int (length (class_rows ex_x ex_y [2, 0] 2)) < 3" by code_simp
  have shape: "length (rows ex_y) = length ex_x" "length (rows ex_ytest) = length ex_xtest"
    "width ex_y \<le> width ex_ytest"
    by (simp_all add: ex_y_def ex_x_def ex_ytest_def ex_xtest_def)
  have m: "(2::nat) \<in> set [2, 0]" by simp
  from sampling_errors[of ex_y 4 "[2, 0, 1, 0]" ex_x ex_xtest ex_ytest 1] w
  have a: "split_and_select_random_data [2, 0, 1, 0] ex_x ex_y ex_xtest ex_ytest 4 1 = Inl ValueError"
    by blast
  from sampling_errors[of ex_y 2 "[2, 0, 1, 0]" ex_x ex_xtest ex_ytest 3] rs m short shape
  have b: "split_and_select_random_data [2, 0, 1, 0] ex_x ex_y ex_xtest ex_ytest 2 3 = Inl ValueError"
    by blast
  from w a rs short shape b show ?thesis by simp
qed

section \<open>The claims about the loader\<close>

lemma load_mnist_read_labels_error:
  "read_gz (path_join path (kind @ ''-labels-idx1-ubyte.gz'')) = Inl e \<Longrightarrow>
   load_mnist read_gz fl path kind nz r4 oh = Inl e"
  by (simp add: load_mnist_def and_then_def)

lemma load_mnist_read_images_error:
  "read_gz (path_join path (kind @ ''-labels-idx1-ubyte.gz'')) = Inr lbuf \<Longrightarrow>
   read_gz (path_join path (kind @ ''-images-idx3-ubyte.gz'')) = Inl e \<Longrightarrow>
   load_mnist read_gz fl path kind nz r4 oh = Inl (if length lbuf < 8 then ValueError else e)"
  by (simp add: load_mnist_def and_then_def frombuffer_def)

lemma load_mnist_eq:
  assumes "read_gz (path_join path (kind @ ''-labels-idx1-ubyte.gz'')) = Inr lbuf"
    and "read_gz (path_join path (kind @ ''-images-idx3-ubyte.gz'')) = Inr ibuf"
  shows "load_mnist read_gz fl path kind nz r4 oh =
    (if length lbuf < 8 \<or> length ibuf < 16 \<or> length ibuf - 16 \<noteq> (length lbuf - 8) * 784
     then Inl ValueError
     else if oh \<and> (\<exists>l\<in>set (drop 8 lbuf). 10 \<le> unat l) then Inl IndexError
     else Inr
       (if nz
        then Float64 \<lparr>shape = (if r4 then [length lbuf - 8, 28, 28, 1] else [length lbuf - 8, 784]),
                      entries = map (\<lambda>v. fl (of_nat (unat v) / 255)) (drop 16 ibuf)\<rparr>
        else UInt8 \<lparr>shape = (if r4 then [length lbuf - 8, 28, 28, 1] else [length lbuf - 8, 784]),
                    entries = drop 16 ibuf\<rparr>,
        if oh
        then OneHot \<lparr>width = 10,
                     rows = map (\<lambda>l. (replicate 10 0)[unat l := 1]) (drop 8 lbuf)\<rparr>
        else ClassIndices \<lparr>shape = [length lbuf - 8], entries = drop 8 lbuf\<rparr>))"
  unfolding load_mnist_def Let_def assms
  by (simp add: and_then_def frombuffer_def reshape_def reshape_images_def images_shape_def
      divide_255_def to_categorical_def)


lemma load_mnist_Inr_reads:
  assumes "load_mnist read_gz fl path kind nz r4 oh = Inr r"
  shows "\<exists>lbuf ibuf.
     read_gz (path_join path (kind @ ''-labels-idx1-ubyte.gz'')) = Inr lbuf \<and>
     read_gz (path_join path (kind @ ''-images-idx3-ubyte.gz'')) = Inr ibuf"
proof (cases "read_gz (path_join path (kind @ ''-labels-idx1-ubyte.gz''))")
  case (Inl e)
  then have "load_mnist read_gz fl path kind nz r4 oh = Inl e"
    by (rule load_mnist_read_labels_error)
  with assms show ?thesis by simp
next
  case lb: (Inr lbuf)
  show ?thesis
  proof (cases "read_gz (path_join path (kind @ ''-images-idx3-ubyte.gz''))")
    case (Inl e)
    with lb have "load_mnist read_gz fl path kind nz r4 oh
        = Inl (if length lbuf < 8 then ValueError else e)"
      by (rule load_mnist_read_images_error)
    with assms show ?thesis by simp
  next
    case (Inr ibuf)
    with lb show ?thesis by simp
  qed
qed

lemma one_hot_row_unit:
  assumes "i < n"
  shows "one_hot_row ((replicate n 0)[i := 1])"
proof -
  have "sum_list ((replicate n (0::int))[i := 1]) = 1"
    using assms by (simp add: upd_conv_take_nth_drop sum_list_replicate)
  moreover have "\<forall>v\<in>set ((replicate n (0::int))[i := 1]). v = 0 \<or> v = 1"
    using set_update_subset_insert[of "replicate n (0::int)" i 1] by auto
  ultimately show ?thesis by (simp add: one_hot_row_def list_all_iff)
qed

text \<open>
  C6.  \<^verbatim>\<open>load_mnist\<close> returns no result, only the exception, in each of these cases:
  reading the label file raises (missing file, not gzip): that exception reaches the
  caller; reading the image file raises: that exception reaches the caller (or the
  \<open>ValueError\<close> of a label file shorter than its 8-byte header, raised first); both
  files are read and the image bytes after the 16-byte header are not 784 times the
  label bytes after the 8-byte header: \<open>ValueError\<close>.
\<close>

theorem load_failures:
  "(read_gz (path_join path (kind @ ''-labels-idx1-ubyte.gz'')) = Inl e \<longrightarrow>
      load_mnist read_gz fl path kind nrm t4d hot = Inl e) \<and>
   (read_gz (path_join path (kind @ ''-labels-idx1-ubyte.gz'')) = Inr lbuf \<and>
    read_gz (path_join path (kind @ ''-images-idx3-ubyte.gz'')) = Inl e \<longrightarrow>
      load_mnist read_gz fl path kind nrm t4d hot
        = Inl (if length lbuf < 8 then ValueError else e)) \<and>
   (read_gz (path_join path (kind @ ''-labels-idx1-ubyte.gz'')) = Inr lbuf \<and>
    read_gz (path_join path (kind @ ''-images-idx3-ubyte.gz'')) = Inr ibuf \<and>
    int (length ibuf) - 16 \<noteq> (int (length lbuf) - 8) * 784 \<longrightarrow>
      load_mnist read_gz fl path kind nrm t4d hot = Inl ValueError)"
proof (intro conjI impI)
  assume "read_gz (path_join path (kind @ ''-labels-idx1-ubyte.gz'')) = Inl e"
  then show "load_mnist read_gz fl path kind nrm t4d hot = Inl e"
    by (rule load_mnist_read_labels_error)
next
  assume "read_gz (path_join path (kind @ ''-labels-idx1-ubyte.gz'')) = Inr lbuf \<and>
    read_gz (path_join path (kind @ ''-images-idx3-ubyte.gz'')) = Inl e"
  then show "load_mnist read_gz fl path kind nrm t4d hot
      = Inl (if length lbuf < 8 then ValueError else e)"
    by (intro load_mnist_read_images_error) simp_all
next
  assume a: "read_gz (path_join path (kind @ ''-labels-idx1-ubyte.gz'')) = Inr lbuf \<and>
    read_gz (path_join path (kind @ ''-images-idx3-ubyte.gz'')) = Inr ibuf \<and>
    int (length ibuf) - 16 \<noteq> (int (length lbuf) - 8) * 784"
  then have r: "read_gz (path_join path (kind @ ''-labels-idx1-ubyte.gz'')) = Inr lbuf"
    "read_gz (path_join path (kind @ ''-images-idx3-ubyte.gz'')) = Inr ibuf" by simp_all
  have "length lbuf < 8 \<or> length ibuf < 16 \<or> length ibuf - 16 \<noteq> (length lbuf - 8) * 784"
  proof (rule ccontr)
    assume "\<not> ?thesis"
    then have "8 \<le> length lbuf" "16 \<le> length ibuf" "length ibuf - 16 = (length lbuf - 8) * 784"
      by simp_all
    then have "int (length ibuf) - 16 = (int (length lbuf) - 8) * 784"
      by (simp add: of_nat_diff flip: of_nat_mult)
    with a show False by simp
  qed
  then show "load_mnist read_gz fl path kind nrm t4d hot = Inl ValueError"
    unfolding load_mnist_eq[of read_gz path kind lbuf ibuf, OF r] by simp
qed


theorem load_failures_witness:
  "ex_read_gz (path_join ''data'' (''bad'' @ ''-labels-idx1-ubyte.gz'')) = Inl BadGzipFile \<and>
   load_mnist ex_read_gz (\<lambda>q. q) ''data'' ''bad'' True True True = Inl BadGzipFile \<and>
   ex_read_gz (path_join ''data'' (''half'' @ ''-labels-idx1-ubyte.gz'')) = Inr (replicate 8 0 @ [3]) \<and>
   ex_read_gz (path_join ''data'' (''half'' @ ''-images-idx3-ubyte.gz'')) = Inl FileNotFoundError \<and>
   load_mnist ex_read_gz (\<lambda>q. q) ''data'' ''half'' True True True = Inl FileNotFoundError \<and>
   ex_read_gz (path_join ''data'' (''test'' @ ''-labels-idx1-ubyte.gz'')) = Inr (replicate 8 0 @ [3]) \<and>
   ex_read_gz (path_join ''data'' (''test'' @ ''-images-idx3-ubyte.gz''))
     = Inr (replicate 16 0 @ replicate 783 255) \<and>
   int (length (replicate 16 (0::byte) @ replicate 783 255)) - 16
     \<noteq> (int (length (replicate 8 (0::byte) @ [3])) - 8) * 784 \<and>
   load_mnist ex_read_gz (\<lambda>q. q) ''data'' ''test'' True True True = Inl ValueError"
proof -
  have b: "ex_read_gz (path_join ''data'' (''bad'' @ ''-labels-idx1-ubyte.gz'')) = Inl BadGzipFile"
    by (simp add: ex_read_gz_def path_join_def)
  have h: "ex_read_gz (path_join ''data'' (''half'' @ ''-labels-idx1-ubyte.gz'')) = Inr (replicate 8 0 @ [3])"
    "ex_read_gz (path_join ''data'' (''half'' @ ''-images-idx3-ubyte.gz'')) = Inl FileNotFoundError"
    by (simp_all add: ex_read_gz_def path_join_def)
  have t: "ex_read_gz (path_join ''data'' (''test'' @ ''-labels-idx1-ubyte.gz'')) = Inr (replicate 8 0 @ [3])"
    "ex_read_gz (path_join ''data'' (''test'' @ ''-images-idx3-ubyte.gz''))
       = Inr (replicate 16 0 @ replicate 783 255)"
    by (simp_all add: ex_read_gz_def path_join_def)
  have n: "int (length (replicate 16 (0::byte) @ replicate 783 255)) - 16
     \<noteq> (int (length (replicate 8 (0::byte) @ [3])) - 8) * 784" by simp
  from load_failures[where read_gz = ex_read_gz and path = "''data''" and kind = "''bad''"
      and e = BadGzipFile and fl = "\<lambda>q. q" and nrm = True and t4d = True and hot = True] b
  have 1: "load_mnist ex_read_gz (\<lambda>q. q) ''data'' ''bad'' True True True = Inl BadGzipFile"
    by blast
  from load_failures[where read_gz = ex_read_gz and path = "''data''" and kind = "''half''"
      and e = FileNotFoundError and lbuf = "replicate 8 0 @ [3]"
      and fl = "\<lambda>q. q" and nrm = True and t4d = True and hot = True] h
  have 2: "load_mnist ex_read_gz (\<lambda>q. q) ''data'' ''half'' True True True = Inl FileNotFoundError"
    by simp
  from load_failures[where read_gz = ex_read_gz and path = "''data''" and kind = "''test''"
      and lbuf = "replicate 8 0 @ [3]" and ibuf = "replicate 16 0 @ replicate 783 255"
      and fl = "\<lambda>q. q" and nrm = True and t4d = True and hot = True] t n
  have 3: "load_mnist ex_read_gz (\<lambda>q. q) ''data'' ''test'' True True True = Inl ValueError"
    by blast
  from b h t n 1 2 3 show ?thesis by blast
qed

text \<open>
  C8.  Let both files be read, with bytes \<open>lbuf\<close> and \<open>ibuf\<close>, of consistent sizes, and
  every label below 10 when \<open>one_hot\<close> is set.  Then, for the same files and flags, the
  call with \<open>normalize\<close> off returns the bytes of the image file after its 16-byte
  header as they are (raw integers, each at most 255), and the call with \<open>normalize\<close>
  on returns, with the same shape and the same labels, \<open>fl (v / 255)\<close> for each of
  these bytes \<open>v\<close>, position by position.  For every rounding \<open>fl\<close> that is monotone
  and keeps 0 and 1 (as rounding to the nearest float does), the normalised entries lie
  between 0 and 1 and the byte 255 becomes exactly 1.
\<close>

theorem normalization_on_off:
  assumes "read_gz (path_join path (kind @ ''-labels-idx1-ubyte.gz'')) = Inr lbuf"
    and "read_gz (path_join path (kind @ ''-images-idx3-ubyte.gz'')) = Inr ibuf"
    and "8 \<le> length lbuf" and "16 \<le> length ibuf"
    and "length ibuf - 16 = (length lbuf - 8) * 784"
    and "hot \<longrightarrow> (\<forall>l\<in>set (drop 8 lbuf). unat l < 10)"
  shows "\<exists>lab.
     load_mnist read_gz fl path kind False t4d hot
       = Inr (UInt8 \<lparr>shape = (if t4d then [length lbuf - 8, 28, 28, 1]
                                  else [length lbuf - 8, 784]),
                     entries = drop 16 ibuf\<rparr>, lab) \<and>
     load_mnist read_gz fl path kind True t4d hot
       = Inr (Float64 \<lparr>shape = (if t4d then [length lbuf - 8, 28, 28, 1]
                                    else [length lbuf - 8, 784]),
                       entries = map (\<lambda>v. fl (of_nat (unat v) / 255)) (drop 16 ibuf)\<rparr>,
              lab) \<and>
     (\<forall>i<(length lbuf - 8) * 784.
        drop 16 ibuf ! i = ibuf ! (16 + i) \<and> unat (ibuf ! (16 + i)) \<le> 255 \<and>
        map (\<lambda>v. fl (of_nat (unat v) / 255)) (drop 16 ibuf) ! i
          = fl (of_nat (unat (ibuf ! (16 + i))) / 255)) \<and>
     ((\<forall>p q. p \<le> q \<longrightarrow> fl p \<le> fl q) \<and> fl 0 = 0 \<and> fl 1 = 1 \<longrightarrow>
        (\<forall>v\<in>set (drop 16 ibuf).
           0 \<le> fl (of_nat (unat v) / 255) \<and> fl (of_nat (unat v) / 255) \<le> 1) \<and>
        fl (of_nat (unat (255 :: byte)) / 255) = 1)"
proof -
  note eq = load_mnist_eq[of read_gz path kind lbuf ibuf, OF assms(1,2)]
  let ?s = "if t4d then [length lbuf - 8, 28, 28, 1] else [length lbuf - 8, 784]"
  let ?lab = "if hot
        then OneHot \<lparr>width = 10,
                     rows = map (\<lambda>l. (replicate 10 0)[unat l := 1]) (drop 8 lbuf)\<rparr>
        else ClassIndices \<lparr>shape = [length lbuf - 8], entries = drop 8 lbuf\<rparr>"
  from assms(3-5) have sz: "\<not> (length lbuf < 8 \<or> length ibuf < 16 \<or>
        length ibuf - 16 \<noteq> (length lbuf - 8) * 784)" by simp
  from assms(6) have lb: "\<not> (hot \<and> (\<exists>l\<in>set (drop 8 lbuf). 10 \<le> unat l))"
    by (auto simp: not_le)
  have off: "load_mnist read_gz fl path kind False t4d hot
       = Inr (UInt8 \<lparr>shape = ?s, entries = drop 16 ibuf\<rparr>, ?lab)"
    unfolding eq[of fl False t4d hot] using sz lb by simp
  have on: "load_mnist read_gz fl path kind True t4d hot
       = Inr (Float64 \<lparr>shape = ?s,
                       entries = map (\<lambda>v. fl (of_nat (unat v) / 255)) (drop 16 ibuf)\<rparr>, ?lab)"
    unfolding eq[of fl True t4d hot] using sz lb by simp
  have byte: "unat v \<le> 255" for v :: byte
    using unsigned_less[of v, where 'a = nat] by simp
  have pix: "drop 16 ibuf ! i = ibuf ! (16 + i) \<and> unat (ibuf ! (16 + i)) \<le> 255 \<and>
        map (\<lambda>v. fl (of_nat (unat v) / 255)) (drop 16 ibuf) ! i
          = fl (of_nat (unat (ibuf ! (16 + i))) / 255)"
    if "i < (length lbuf - 8) * 784" for i
  proof -
    from that assms(5) have i: "i < length (drop 16 ibuf)" by simp
    have d: "drop 16 ibuf ! i = ibuf ! (16 + i)" using assms(4) by simp
    from i have "map (\<lambda>v. fl (of_nat (unat v) / 255)) (drop 16 ibuf) ! i
        = fl (of_nat (unat (drop 16 ibuf ! i)) / 255)" by (rule nth_map)
    with d byte[of "ibuf ! (16 + i)"] show ?thesis by simp
  qed
  have rng: "0 \<le> fl (of_nat (unat v) / 255) \<and> fl (of_nat (unat v) / 255) \<le> 1"
    if m: "\<forall>p q. p \<le> q \<longrightarrow> fl p \<le> fl q" and z: "fl 0 = 0" and o: "fl 1 = 1" for v :: byte
  proof -
    have n0: "(0::rat) \<le> of_nat (unat v)" by (rule of_nat_0_le_iff)
    then have "(0::rat) \<le> of_nat (unat v) / 255" by (rule divide_nonneg_nonneg) simp
    with m have "fl 0 \<le> fl (of_nat (unat v) / 255)" by blast
    moreover have "(of_nat (unat v) :: rat) \<le> of_nat 255"
      using byte[of v] by (simp only: of_nat_le_iff)
    then have "(of_nat (unat v) :: rat) / 255 \<le> of_nat 255 / 255"
      by (rule divide_right_mono) simp
    then have "(of_nat (unat v) / 255 :: rat) \<le> 1" by simp
    with m have "fl (of_nat (unat v) / 255) \<le> fl 1" by blast
    ultimately show ?thesis using z o by simp
  qed
  have top: "fl (of_nat (unat (255 :: byte)) / 255) = 1" if "fl 1 = 1"
    using that by simp
  from off on pix rng top show ?thesis by (intro exI[of _ ?lab]) blast
qed

theorem normalization_on_off_witness:
  "ex_read_gz (path_join ''data'' (''train'' @ ''-labels-idx1-ubyte.gz''))
     = Inr (replicate 8 0 @ [3]) \<and>
   ex_read_gz (path_join ''data'' (''train'' @ ''-images-idx3-ubyte.gz''))
     = Inr (replicate 16 0 @ replicate 784 255) \<and>
   load_mnist ex_read_gz (\<lambda>q. q) ''data'' ''train'' False False True
     = Inr (UInt8 \<lparr>shape = [1, 784], entries = replicate 784 255\<rparr>,
            OneHot \<lparr>width = 10, rows = [[0, 0, 0, 1, 0, 0, 0, 0, 0, 0]]\<rparr>) \<and>
   load_mnist ex_read_gz (\<lambda>q. q) ''data'' ''train'' True False True
     = Inr (Float64 \<lparr>shape = [1, 784], entries = replicate 784 1\<rparr>,
            OneHot \<lparr>width = 10, rows = [[0, 0, 0, 1, 0, 0, 0, 0, 0, 0]]\<rparr>)"
proof -
  let ?lbuf = "replicate 8 (0 :: byte) @ [3]"
  let ?ibuf = "replicate 16 (0 :: byte) @ replicate 784 255"
  let ?l = "OneHot \<lparr>width = 10, rows = [[0, 0, 0, 1, 0, 0, 0, 0, 0, 0]]\<rparr>"
  have r: "ex_read_gz (path_join ''data'' (''train'' @ ''-labels-idx1-ubyte.gz'')) = Inr ?lbuf"
    "ex_read_gz (path_join ''data'' (''train'' @ ''-images-idx3-ubyte.gz'')) = Inr ?ibuf"
    by (simp_all add: ex_read_gz_def path_join_def)
  have sz: "8 \<le> length ?lbuf" "16 \<le> length ?ibuf"
    "length ?ibuf - 16 = (length ?lbuf - 8) * 784" by simp_all
  have lb: "True \<longrightarrow> (\<forall>l\<in>set (drop 8 ?lbuf). unat l < 10)" by simp
  have off: "load_mnist ex_read_gz (\<lambda>q. q) ''data'' ''train'' False False True
      = Inr (UInt8 \<lparr>shape = [1, 784], entries = replicate 784 255\<rparr>, ?l)"
    by code_simp
  from normalization_on_off[OF r sz lb, of "\<lambda>q. q" False] obtain lab where
    off': "load_mnist ex_read_gz (\<lambda>q. q) ''data'' ''train'' False False True
       = Inr (UInt8 \<lparr>shape = [length ?lbuf - 8, 784], entries = drop 16 ?ibuf\<rparr>, lab)"
    and on: "load_mnist ex_read_gz (\<lambda>q. q) ''data'' ''train'' True False True
       = Inr (Float64 \<lparr>shape = [length ?lbuf - 8, 784],
                       entries = map (\<lambda>v. of_nat (unat v) / 255) (drop 16 ?ibuf)\<rparr>, lab)"
    by auto
  from off off' have "lab = ?l" by simp
  with on have "load_mnist ex_read_gz (\<lambda>q. q) ''data'' ''train'' True False True
     = Inr (Float64 \<lparr>shape = [1, 784], entries = replicate 784 1\<rparr>, ?l)"
    by simp
  with r off show ?thesis by simp
qed

text \<open>
  C9.  Whenever \<^verbatim>\<open>load_mnist\<close> returns with \<open>one_hot\<close> set, the labels are a one-hot
  array of width 10 with one row per image: every row has 10 entries, each 0 or 1, and
  sums to exactly 1.
\<close>

theorem one_hot_labels:
  assumes "load_mnist read_gz fl path kind nrm t4d True = Inr (im, lab)"
  shows "\<exists>a. lab = OneHot a \<and> width a = 10 \<and> one_hot a \<and>
     (\<forall>r\<in>set (rows a). length r = 10 \<and> sum_list r = 1) \<and>
     length (rows a) = hd (images_shape im)"
proof -
  from load_mnist_Inr_reads[OF assms] obtain lbuf ibuf where
    r: "read_gz (path_join path (kind @ ''-labels-idx1-ubyte.gz'')) = Inr lbuf"
      "read_gz (path_join path (kind @ ''-images-idx3-ubyte.gz'')) = Inr ibuf"
    by blast
  note eq = load_mnist_eq[of read_gz path kind lbuf ibuf, OF r, of fl nrm t4d True]
  let ?a = "\<lparr>width = 10, rows = map (\<lambda>l. (replicate 10 (0::int))[unat l := 1]) (drop 8 lbuf)\<rparr>"
  from assms have ok: "8 \<le> length lbuf" "\<forall>l\<in>set (drop 8 lbuf). unat l < 10"
    unfolding eq by (auto split: if_splits simp: not_le)
  from assms ok have lab: "lab = OneHot ?a"
    and sh: "hd (images_shape im) = length lbuf - 8"
    unfolding eq by (auto split: if_splits simp: images_shape_def)
  have row: "one_hot_row r \<and> length r = 10" if "r \<in> set (rows ?a)" for r
  proof -
    from that obtain l where "l \<in> set (drop 8 lbuf)" "r = (replicate 10 0)[unat l := 1]"
      by auto
    with ok(2) one_hot_row_unit[of "unat l" 10] show ?thesis by simp
  qed
  then have oh: "one_hot ?a"
    unfolding one_hot_def wf_labels_def list_all_iff by simp
  have "\<forall>r\<in>set (rows ?a). length r = 10 \<and> sum_list r = 1"
    using row by (simp add: one_hot_row_def)
  with lab oh sh show ?thesis by (intro exI[of _ ?a]) simp
qed

theorem one_hot_labels_witness:
  "load_mnist ex_read_gz (\<lambda>q. q) ''data'' ''train'' False False True
     = Inr (UInt8 \<lparr>shape = [1, 784], entries = replicate 784 255\<rparr>,
            OneHot \<lparr>width = 10, rows = [[0, 0, 0, 1, 0, 0, 0, 0, 0, 0]]\<rparr>) \<and>
   (\<exists>a. OneHot \<lparr>width = 10, rows = [[0, 0, 0, 1, 0, 0, 0, 0, 0, 0]]\<rparr> = OneHot a \<and>
        width a = 10 \<and> one_hot a \<and>
        (\<forall>r\<in>set (rows a). length r = 10 \<and> sum_list r = 1) \<and>
        length (rows a)
          = hd (images_shape (UInt8 \<lparr>shape = [1, 784], entries = replicate 784 255\<rparr>)))"
proof -
  have run: "load_mnist ex_read_gz (\<lambda>q. q) ''data'' ''train'' False False True
     = Inr (UInt8 \<lparr>shape = [1, 784], entries = replicate 784 255\<rparr>,
            OneHot \<lparr>width = 10, rows = [[0, 0, 0, 1, 0, 0, 0, 0, 0, 0]]\<rparr>)"
    by code_simp
  from one_hot_labels[OF run] run show ?thesis by blast
qed

section \<open>Every draw is possible, and valid calls return\<close>

lemma draw_pool_complete:
  "distinct pool \<Longrightarrow> distinct idx \<Longrightarrow> set idx \<subseteq> set pool \<Longrightarrow>
   \<exists>g. fst (draw_pool g pool (length idx)) = idx"
proof (induction idx arbitrary: pool)
  case Nil
  then show ?case by simp
next
  case (Cons a idx)
  from Cons.prems(3) have "a \<in> set pool" by simp
  then obtain j where j: "j < length pool" "pool ! j = a" by (metis in_set_conv_nth)
  define pool' where "pool' = take j pool @ drop (Suc j) pool"
  have pool: "pool = take j pool @ a # drop (Suc j) pool"
    using id_take_nth_drop[OF j(1)] j(2) by simp
  with Cons.prems(1) have d: "distinct (take j pool @ a # drop (Suc j) pool)" by simp
  then have dp: "distinct pool'" by (simp add: pool'_def)
  have "set pool = insert a (set pool')"
    unfolding pool'_def by (subst pool) auto
  with Cons.prems(2,3) have sub: "set idx \<subseteq> set pool'" by auto
  from Cons.prems(2) have di: "distinct idx" by simp
  from Cons.IH[OF dp di sub] obtain g where g: "fst (draw_pool g pool' (length idx)) = idx"
    by blast
  obtain rest g2 where r: "draw_pool g pool' (length idx) = (rest, g2)"
    by (cases "draw_pool g pool' (length idx)")
  with g have "rest = idx" by simp
  with r j have "fst (draw_pool (j # g) pool (length (a # idx))) = a # idx"
    by (simp add: pool'_def)
  then show ?case by blast
qed

lemma random_sample_complete:
  assumes "distinct idx" "\<forall>i\<in>set idx. i < n"
  shows "\<exists>g. fst (random_sample g n (int (length idx))) = Inr idx"
proof -
  have "length idx = card (set idx)" using assms(1) by (simp add: distinct_card)
  also have "\<dots> \<le> card {0..<n}" using assms(2) by (intro card_mono) auto
  finally have le: "length idx \<le> n" by simp
  from assms have "\<exists>g. fst (draw_pool g [0..<n] (length idx)) = idx"
    by (intro draw_pool_complete) auto
  then obtain g where "fst (draw_pool g [0..<n] (length idx)) = idx" by blast
  with le have "fst (random_sample g n (int (length idx))) = Inr idx"
    by (cases "draw_pool g [0..<n] (length idx)") (simp add: random_sample_def)
  then show ?thesis by blast
qed

lemma get_random_labeled_examples_ok:
  assumes "c < w" "length y = length x" "0 \<le> k"
    and "k \<le> int (length (rows_where (\<lambda>r. r ! c = 1) x y))"
  shows "\<exists>p g'. get_random_labeled_examples g x w y c k = (Inr p, g')"
proof -
  let ?P = "\<lambda>r::int list. r ! c = 1"
  have pre: "and_then (column_is_one w y c) (\<lambda>m. and_then (mask_select x m) (\<lambda>x_c.
            and_then (mask_select y m) (\<lambda>y_c. Inr (x_c, y_c))))
      = Inr (rows_where ?P x y, rows_where ?P y y)"
    using assms(1,2) by (simp add: column_is_one_def and_then_def mask_select_map)
  from random_sample_ok[OF assms(3,4)] obtain idx g' where
    "random_sample g (length (rows_where ?P x y)) k = (Inr idx, g')" by blast
  then show ?thesis
    unfolding get_random_labeled_examples_def pre by simp
qed

lemma sample_remaining_ok:
  assumes "\<forall>c\<in>set cs. c < w" "length y = length x" "0 \<le> k"
    and "\<forall>c\<in>set cs. k \<le> int (length (rows_where (\<lambda>r. r ! c = 1) x y))"
  shows "\<exists>r. sample_remaining g x w y cs k acc = Inr r"
  using assms(1,4)
proof (induction cs arbitrary: g acc)
  case Nil
  show ?case by (rule exI[of _ acc]) simp
next
  case (Cons c cs)
  obtain xl yl xu where acc: "acc = (xl, yl, xu)" by (cases acc)
  from Cons.prems have c: "c < w" "k \<le> int (length (rows_where (\<lambda>r. r ! c = 1) x y))"
    and rest: "\<forall>c\<in>set cs. c < w"
      "\<forall>c\<in>set cs. k \<le> int (length (rows_where (\<lambda>r. r ! c = 1) x y))"
    by simp_all
  from get_random_labeled_examples_ok[OF c(1) assms(2,3) c(2)] obtain p g1 where
    run0: "get_random_labeled_examples g x w y c k = (Inr p, g1)" by blast
  obtain xt yt ut where p: "p = (xt, yt, ut)" by (cases p)
  from run0 p have run: "get_random_labeled_examples g x w y c k = (Inr (xt, yt, ut), g1)"
    by simp
  from Cons.IH[OF rest] obtain r where
    "sample_remaining g1 x w y cs k (xl @ xt, yl @ yt, xu @ ut) = Inr r" by blast
  with acc run show ?case by (intro exI[of _ r]) simp
qed


lemma split_on_classes_ok:
  assumes "length (rows y) = length x" "length (rows ytest) = length xtest"
    and "\<forall>c\<in>set cs. c < width y" "\<forall>c\<in>set cs. c < width ytest" "cs \<noteq> []"
    and "0 \<le> k" "\<forall>c\<in>set cs. k \<le> int (length (class_rows x y cs c))"
  shows "\<exists>res. split_on_classes g x y xtest ytest cs k = Inr res"
proof -
  let ?xt = "rows_where (is_target cs) x (rows y)" and ?yt = "filter (is_target cs) (rows y)"
  let ?xa = "rows_where (\<lambda>r. \<not> is_target cs r) x (rows y)"
  let ?ya = "filter (\<lambda>r. \<not> is_target cs r) (rows y)"
  let ?xs = "rows_where (is_target cs) xtest (rows ytest)"
  let ?ys = "filter (is_target cs) (rows ytest)"
  from assms(5) obtain c0 cs' where cs: "cs = c0 # cs'" by (cases cs) auto
  have s1: "selected_sum_is_one y cs = Inr (map (is_target cs) (rows y))"
    using assms(3) by (simp add: selected_sum_is_one_Inr)
  have s2: "selected_sum_is_one ytest cs = Inr (map (is_target cs) (rows ytest))"
    using assms(4) by (simp add: selected_sum_is_one_Inr)
  have m: "mask_select (rows y) (map (is_target cs) (rows y)) = Inr ?yt"
    "mask_select x (map (is_target cs) (rows y)) = Inr ?xt"
    "mask_select (rows y) (map Not (map (is_target cs) (rows y))) = Inr ?ya"
    "mask_select x (map Not (map (is_target cs) (rows y))) = Inr ?xa"
    "mask_select xtest (map (is_target cs) (rows ytest)) = Inr ?xs"
    "mask_select (rows ytest) (map (is_target cs) (rows ytest)) = Inr ?ys"
    using assms(1,2) by (simp_all add: mask_select_map rows_where_self rows_where_map o_def)
  have lt: "length ?yt = length ?xt" using assms(1) by (simp add: length_rows_where_self)
  have cnt: "k \<le> int (length (rows_where (\<lambda>r. r ! c = 1) ?xt ?yt))" if "c \<in> set cs" for c
    using assms(7) that rows_where_nested[OF assms(1), of "\<lambda>r. r ! c = 1" "is_target cs"]
    by (simp add: class_rows_def)
  from assms(3) cs have c0: "c0 < width y" and rest: "\<forall>c\<in>set cs'. c < width y" by simp_all
  from cnt cs have k0: "k \<le> int (length (rows_where (\<lambda>r. r ! c0 = 1) ?xt ?yt))"
    and krest: "\<forall>c\<in>set cs'. k \<le> int (length (rows_where (\<lambda>r. r ! c = 1) ?xt ?yt))"
    by simp_all
  from get_random_labeled_examples_ok[OF c0 lt assms(6) k0] obtain first g1 where
    run: "get_random_labeled_examples g ?xt (width y) ?yt c0 k = (Inr first, g1)" by blast
  from sample_remaining_ok[OF rest lt assms(6) krest] obtain r where
    loop: "sample_remaining g1 ?xt (width y) ?yt cs' k first = Inr r" by blast
  have lc: "(case cs of [] \<Rightarrow> a | c # cs'' \<Rightarrow> f c cs'') = f c0 cs'" for a :: 'z and f
    by (simp add: cs)
  show ?thesis
    unfolding split_on_classes_def s1 s2 m and_then_Inr_eq lc run
    by (cases r) (simp add: loop and_then_Inr_eq)
qed


text \<open>
  C1.  Whenever \<^verbatim>\<open>split_and_select_random_data\<close> returns, the labeled set is the
  concatenation, in the order the classes were drawn, of one block per selected class;
  each block has exactly \<open>num_examples_per_class\<close> rows, all of them target rows of
  that class, so the labeled set has exactly
  \<open>num_target_classes * num_examples_per_class\<close> rows.  And the call does return when
  at least one and at most as many classes as the label width are requested, no drawn
  class has fewer target rows than the examples requested per class, and the arrays
  have consistent shapes.
\<close>

theorem labeled_set_size:
  "(split_and_select_random_data g x y xtest ytest n k = Inr res \<longrightarrow>
      (\<exists>cs g' blocks. random_sample g (width y) n = (Inr cs, g') \<and>
         length cs = nat n \<and> length blocks = nat n \<and>
         x_target_labeled res = concat blocks \<and>
         (\<forall>i<nat n. length (blocks ! i) = nat k \<and>
                    set (blocks ! i) \<subseteq> set (class_rows x y cs (cs ! i))) \<and>
         int (length (x_target_labeled res)) = n * k)) \<and>
   (1 \<le> n \<and> n \<le> int (width y) \<and> 0 \<le> k \<and>
    length (rows y) = length x \<and> length (rows ytest) = length xtest \<and>
    width y \<le> width ytest \<and>
    (\<forall>cs g'. random_sample g (width y) n = (Inr cs, g') \<longrightarrow>
       (\<forall>c\<in>set cs. k \<le> int (length (class_rows x y cs c)))) \<longrightarrow>
      (\<exists>res. split_and_select_random_data g x y xtest ytest n k = Inr res))"
proof (intro conjI impI)
  assume "split_and_select_random_data g x y xtest ytest n k = Inr res"
  then show "\<exists>cs g' blocks. random_sample g (width y) n = (Inr cs, g') \<and>
         length cs = nat n \<and> length blocks = nat n \<and>
         x_target_labeled res = concat blocks \<and>
         (\<forall>i<nat n. length (blocks ! i) = nat k \<and>
                    set (blocks ! i) \<subseteq> set (class_rows x y cs (cs ! i))) \<and>
         int (length (x_target_labeled res)) = n * k"
    by (rule labeled_blocks)
next
  assume a: "1 \<le> n \<and> n \<le> int (width y) \<and> 0 \<le> k \<and>
    length (rows y) = length x \<and> length (rows ytest) = length xtest \<and>
    width y \<le> width ytest \<and>
    (\<forall>cs g'. random_sample g (width y) n = (Inr cs, g') \<longrightarrow>
       (\<forall>c\<in>set cs. k \<le> int (length (class_rows x y cs c))))"
  then have n: "0 \<le> n" "n \<le> int (width y)" "1 \<le> n" and k: "0 \<le> k"
    and l: "length (rows y) = length x" "length (rows ytest) = length xtest"
    and w: "width y \<le> width ytest" by simp_all
  from random_sample_ok[OF n(1,2)] obtain cs g' where
    rs: "random_sample g (width y) n = (Inr cs, g')" by blast
  with a have cnt: "\<forall>c\<in>set cs. k \<le> int (length (class_rows x y cs c))" by blast
  from random_sample_Inr[OF rs] have cw: "\<forall>c\<in>set cs. c < width y" and lc: "length cs = nat n"
    by simp_all
  from cw w have cwt: "\<forall>c\<in>set cs. c < width ytest" by auto
  from lc n(3) have ne: "cs \<noteq> []" by auto
  from split_on_classes_ok[OF l cw cwt ne k cnt] obtain res' where
    "split_on_classes g' x y xtest ytest cs k = Inr res'" by blast
  with rs have "split_and_select_random_data g x y xtest ytest n k = Inr res'"
    by (simp add: split_and_select_random_data_def)
  then show "\<exists>res. split_and_select_random_data g x y xtest ytest n k = Inr res" by blast
qed

theorem labeled_set_size_witness:
  "split_and_select_random_data [2, 0, 1, 0] ex_x ex_y ex_xtest ex_ytest 2 1 = Inr ex_res \<and>
   (\<exists>cs g' blocks. random_sample [2, 0, 1, 0] (width ex_y) 2 = (Inr cs, g') \<and>
     length cs = nat 2 \<and> length blocks = nat 2 \<and>
     x_target_labeled ex_res = concat blocks \<and>
     (\<forall>i<nat 2. length (blocks ! i) = nat 1 \<and>
                set (blocks ! i) \<subseteq> set (class_rows ex_x ex_y cs (cs ! i))) \<and>
     int (length (x_target_labeled ex_res)) = 2 * 1) \<and>
   random_sample [2, 0, 1, 0] (width ex_y) 2 = (Inr [2, 0], [1, 0]) \<and>
   1 \<le> int (length (class_rows ex_x ex_y [2, 0] 2)) \<and>
   1 \<le> int (length (class_rows ex_x ex_y [2, 0] 0)) \<and>
   2 \<le> int (width ex_y) \<and>
   length (rows ex_y) = length ex_x \<and> length (rows ex_ytest) = length ex_xtest \<and>
   width ex_y \<le> width ex_ytest \<and>
   (\<exists>res. split_and_select_random_data [2, 0, 1, 0] ex_x ex_y ex_xtest ex_ytest 2 1 = Inr res)"
proof -
  note th = labeled_set_size[of "[2, 0, 1, 0]" ex_x ex_y ex_xtest ex_ytest 2 1 ex_res]
  have run: "split_and_select_random_data [2, 0, 1, 0] ex_x ex_y ex_xtest ex_ytest 2 1 = Inr ex_res"
    by code_simp
  have rs: "random_sample [2, 0, 1, 0] (width ex_y) 2 = (Inr [2, 0], [1, 0])" by code_simp
  have cnt: "1 \<le> int (length (class_rows ex_x ex_y [2, 0] 2))"
    "1 \<le> int (length (class_rows ex_x ex_y [2, 0] 0))" by code_simp+
  have shape: "2 \<le> int (width ex_y)" "length (rows ex_y) = length ex_x"
    "length (rows ex_ytest) = length ex_xtest" "width ex_y \<le> width ex_ytest"
    by (simp_all add: ex_y_def ex_x_def ex_ytest_def ex_xtest_def)
  have all: "\<forall>cs g'. random_sample [2, 0, 1, 0] (width ex_y) 2 = (Inr cs, g') \<longrightarrow>
       (\<forall>c\<in>set cs. 1 \<le> int (length (class_rows ex_x ex_y cs c)))"
  proof (intro allI impI ballI)
    fix cs g' c
    assume "random_sample [2, 0, 1, 0] (width ex_y) 2 = (Inr cs, g')" and c: "c \<in> set cs"
    with rs have "cs = [2, 0]" by (simp only: prod.inject sum.inject)
    with c have "c = 2 \<or> c = 0" by simp
    with cnt \<open>cs = [2, 0]\<close> show "1 \<le> int (length (class_rows ex_x ex_y cs c))" by blast
  qed
  from th run have blocks: "\<exists>cs g' blocks. random_sample [2, 0, 1, 0] (width ex_y) 2 = (Inr cs, g') \<and>
     length cs = nat 2 \<and> length blocks = nat 2 \<and>
     x_target_labeled ex_res = concat blocks \<and>
     (\<forall>i<nat 2. length (blocks ! i) = nat 1 \<and>
                set (blocks ! i) \<subseteq> set (class_rows ex_x ex_y cs (cs ! i))) \<and>
     int (length (x_target_labeled ex_res)) = 2 * 1"
    by blast
  from th shape all
  have ret: "\<exists>res. split_and_select_random_data [2, 0, 1, 0] ex_x ex_y ex_xtest ex_ytest 2 1 = Inr res"
    by simp
  from run blocks rs cnt shape ret show ?thesis by blast
qed

end
